theory Spec2Isabelle
  imports Main "HOL-Library.Word"
begin

section \<open>Data model of \<^verbatim>\<open>cpp_cache.hpp\<close>\<close>

text \<open>
  \<^verbatim>\<open>size_type\<close> is \<^verbatim>\<open>std::size_t\<close>: an unsigned 64-bit integer whose \<open>+\<close> and \<open>-\<close>
  wrap around.  An entry is the tuple \<^verbatim>\<open>(key, value, dirty)\<close>; \<^verbatim>\<open>std::get<0>\<close>,
  \<^verbatim>\<open>std::get<1>\<close> and \<^verbatim>\<open>std::get<2>\<close> are the three projections below.
\<close>

type_synonym size_type = "64 word"

type_synonym ('k, 'v) entry_type = "'k \<times> 'v \<times> bool"

definition get0 :: "('k, 'v) entry_type \<Rightarrow> 'k" where
  "get0 e = fst e"

definition get1 :: "('k, 'v) entry_type \<Rightarrow> 'v" where
  "get1 e = fst (snd e)"

definition get2 :: "('k, 'v) entry_type \<Rightarrow> bool" where
  "get2 e = snd (snd e)"

text \<open>
  The eviction list is a \<^verbatim>\<open>std::list\<close> of entries, and the index stores list
  iterators.  A list iterator is a stable handle on one node, so every node carries an
  identity (a natural number, handed out by \<open>next_node\<close>); the head of the HOL list is
  \<^verbatim>\<open>begin()\<close> and its last element is \<^verbatim>\<open>back()\<close>.  The index \<^verbatim>\<open>cache_map\<close> maps a key
  to the identity of a node.  The two eviction classes differ only in \<^verbatim>\<open>push_\<close> and
  \<^verbatim>\<open>touch_\<close>, so the template parameter \<^verbatim>\<open>_Evict\<close> is the tag \<open>evict\<close>.

  \<^verbatim>\<open>merge(key, value, dirty)\<close> calls \<^verbatim>\<open>old_value->merge(*value)\<close> and
  \<^verbatim>\<open>old_value->trim(max_size)\<close>: where it is used, the value type \<^verbatim>\<open>V\<close> is a pointer (a
  \<^verbatim>\<open>std::shared_ptr\<close>, say).  A node stores such a pointer, \<^verbatim>\<open>add\<close> copies the pointer it
  is given and \<^verbatim>\<open>get\<close> hands out a copy, so one object can be reached from several nodes
  and from the caller.  The objects live in the \<open>memory\<close>, a map from the values of type
  \<^verbatim>\<open>V\<close> to the contents they point to; it is part of the state that the operations act
  on.  Every value has a content: a null pointer, whose dereference is undefined, is
  not among the values.  For a value type that is no pointer (\<^verbatim>\<open>int\<close> and \<^verbatim>\<open>std::string\<close>
  in the test file) a value is its own content: the memory is the identity, and no
  operation that compiles for such a type changes it.
\<close>

datatype strategy = LRU | MRU

type_synonym iterator = nat

record ('k, 'v, 'o) cache =
  size_calc :: "'o \<Rightarrow> size_type"
  memory :: "'v \<Rightarrow> 'o"
  evict :: strategy
  current_size :: size_type
  max_size :: size_type
  eviction_list :: "(iterator \<times> ('k, 'v) entry_type) list"
  next_node :: nat
  cache_map :: "'k \<rightharpoonup> iterator"
  strong :: bool

text \<open>
  What C++ leaves undefined is a value of the model: \<^verbatim>\<open>back()\<close> and \<^verbatim>\<open>pop_back()\<close> on an
  empty list, and the use of an iterator whose node is no longer in the list.
\<close>

datatype fault = Empty_list_back | Invalid_iterator

text \<open>
  The functor member \<^verbatim>\<open>calc_size\<close>, of type \<^verbatim>\<open>size_calc<V>\<close>, is applied to a value and
  measures what the value points to: the field \<open>size_calc\<close> is the measure of a content,
  and \<open>calc_size c value\<close> is the call \<^verbatim>\<open>calc_size(value)\<close> in the state \<open>c\<close>.
\<close>

definition calc_size :: "('k, 'v, 'o) cache \<Rightarrow> 'v \<Rightarrow> size_type" where
  "calc_size c = (\<lambda>value. size_calc c (memory c value))"

text \<open>
  The constructor \<^verbatim>\<open>cache(_max_size, strong_assoc)\<close>, for a size functor and a strategy,
  in a given memory.
\<close>

definition new_cache ::
  "('o \<Rightarrow> size_type) \<Rightarrow> strategy \<Rightarrow> size_type \<Rightarrow> bool \<Rightarrow> ('v \<Rightarrow> 'o) \<Rightarrow>
     ('k, 'v, 'o) cache" where
  "new_cache sc ev m strong_assoc mem =
     \<lparr>size_calc = sc, memory = mem, evict = ev, current_size = 0, max_size = m,
      eviction_list = [], next_node = 0, cache_map = Map.empty, strong = strong_assoc\<rparr>"

text \<open>Dereferencing an iterator: the entry of the node it names, if the node is in the list.\<close>

definition deref :: "('k, 'v, 'o) cache \<Rightarrow> iterator \<Rightarrow> ('k, 'v) entry_type option" where
  "deref c it = map_of (eviction_list c) it"

section \<open>The eviction strategies\<close>

text \<open>
  The names of the source end in an underscore, which a constant's name cannot; they
  carry a prime here: \<open>fit_'\<close> is \<^verbatim>\<open>fit_\<close>, and so on.
\<close>

definition clear_' :: "('k, 'v, 'o) cache \<Rightarrow> ('k, 'v, 'o) cache" where
  "clear_' c = c\<lparr>eviction_list := []\<rparr>"

text \<open>
  \<^verbatim>\<open>fit_\<close> is the same loop in both strategies: while the cache is bounded and over
  budget, copy \<^verbatim>\<open>back()\<close>, \<^verbatim>\<open>pop_back()\<close>, call the erase callback (always
  \<^verbatim>\<open>cache_map.erase(k)\<close>) on its key and subtract its size.  The loop does not test the
  list for emptiness.
\<close>

function fit_' :: "('k, 'v, 'o) cache \<Rightarrow> fault + ('k, 'v, 'o) cache" where
  "fit_' c =
     (if 0 < max_size c \<and> max_size c < current_size c then
        (if eviction_list c = [] then Inl Empty_list_back
         else
           (let evicted = snd (last (eviction_list c));
                entryToEvict = get1 evicted
            in fit_' (c\<lparr>eviction_list := butlast (eviction_list c),
                         cache_map := (cache_map c)(get0 evicted := None),
                         current_size := current_size c - calc_size c entryToEvict\<rparr>)))
      else Inr c)"
  by pat_completeness auto
termination
  by (relation "measure (\<lambda>c. length (eviction_list c))") auto

text \<open>
  \<^verbatim>\<open>push_\<close>: LRU does \<^verbatim>\<open>emplace_front\<close> and returns \<^verbatim>\<open>begin()\<close>, MRU does \<^verbatim>\<open>emplace_back\<close>
  and returns \<^verbatim>\<open>--end()\<close>.
\<close>

definition push_' ::
  "('k, 'v) entry_type \<Rightarrow> ('k, 'v, 'o) cache \<Rightarrow> iterator \<times> ('k, 'v, 'o) cache" where
  "push_' e c =
     (let it = next_node c
      in (it, c\<lparr>eviction_list :=
                   (case evict c of
                      LRU \<Rightarrow> (it, e) # eviction_list c
                    | MRU \<Rightarrow> eviction_list c @ [(it, e)]),
                 next_node := Suc it\<rparr>))"

text \<open>\<^verbatim>\<open>remove_\<close>: \<^verbatim>\<open>eviction_list.erase(it)\<close>.\<close>

definition remove_' :: "iterator \<Rightarrow> ('k, 'v, 'o) cache \<Rightarrow> fault + ('k, 'v, 'o) cache" where
  "remove_' it c =
     (case deref c it of
        None \<Rightarrow> Inl Invalid_iterator
      | Some e \<Rightarrow> Inr (c\<lparr>eviction_list := filter (\<lambda>n. fst n \<noteq> it) (eviction_list c)\<rparr>))"

text \<open>
  \<^verbatim>\<open>touch_\<close>: \<^verbatim>\<open>splice\<close> of the node to \<^verbatim>\<open>begin()\<close> (LRU) or to \<^verbatim>\<open>end()\<close> (MRU).
\<close>

definition touch_' :: "iterator \<Rightarrow> ('k, 'v, 'o) cache \<Rightarrow> fault + ('k, 'v, 'o) cache" where
  "touch_' it c =
     (case deref c it of
        None \<Rightarrow> Inl Invalid_iterator
      | Some e \<Rightarrow>
          (let others = filter (\<lambda>n. fst n \<noteq> it) (eviction_list c)
           in Inr (c\<lparr>eviction_list :=
                        (case evict c of
                           LRU \<Rightarrow> (it, e) # others
                         | MRU \<Rightarrow> others @ [(it, e)])\<rparr>)))"

section \<open>The cache coordinator\<close>

text \<open>
  \<^verbatim>\<open>touch(key)\<close> returns the pair of an iterator and a flag; the flag is false exactly
  when the iterator is the default one, so the pair is an \<open>option\<close>.
\<close>

definition touch ::
  "'k \<Rightarrow> ('k, 'v, 'o) cache \<Rightarrow> fault + (iterator option \<times> ('k, 'v, 'o) cache)" where
  "touch key c =
     (case cache_map c key of
        None \<Rightarrow> Inr (None, c)
      | Some existingEntry \<Rightarrow>
          (case touch_' existingEntry c of
             Inl f \<Rightarrow> Inl f
           | Inr c' \<Rightarrow> Inr (Some existingEntry, c')))"

text \<open>
  \<^verbatim>\<open>add_\<close>: in strong mode it returns at once unless \<^verbatim>\<open>touch\<close> found the key.
  The rest of its body is \<open>add_insert\<close>: the size is added, \<^verbatim>\<open>fit_\<close> runs, and only then
  is the entry pushed and indexed.
\<close>

definition add_insert ::
  "'k \<Rightarrow> 'v \<Rightarrow> bool \<Rightarrow> ('k, 'v, 'o) cache \<Rightarrow> fault + ('k, 'v, 'o) cache" where
  "add_insert key val dirty c =
     (case fit_' (c\<lparr>current_size := current_size c + calc_size c val\<rparr>) of
        Inl f \<Rightarrow> Inl f
      | Inr c1 \<Rightarrow>
          (let (it, c2) = push_' (key, val, dirty) c1
           in Inr (c2\<lparr>cache_map := (cache_map c2)(key \<mapsto> it)\<rparr>)))"

definition add_' :: "'k \<Rightarrow> 'v \<Rightarrow> bool \<Rightarrow> ('k, 'v, 'o) cache \<Rightarrow> fault + ('k, 'v, 'o) cache" where
  "add_' key val dirty c =
     (if strong c then
        (case touch key c of
           Inl f \<Rightarrow> Inl f
         | Inr (had, c1) \<Rightarrow> if had = None then Inr c1 else add_insert key val dirty c1)
      else add_insert key val dirty c)"

text \<open>
  The internal \<^verbatim>\<open>remove(key, dirty)\<close>, here \<open>remove_dirty\<close> (the public \<^verbatim>\<open>remove(key)\<close>
  is \<open>remove_key\<close>): false when a dirty write meets a clean entry, which then stays.
\<close>

definition remove_dirty ::
  "'k \<Rightarrow> bool \<Rightarrow> ('k, 'v, 'o) cache \<Rightarrow> fault + (bool \<times> ('k, 'v, 'o) cache)" where
  "remove_dirty key dirty c =
     (case cache_map c key of
        None \<Rightarrow> Inr (True, c)
      | Some cacheEntry \<Rightarrow>
          (case deref c cacheEntry of
             None \<Rightarrow> Inl Invalid_iterator
           | Some e \<Rightarrow>
               (if dirty \<and> \<not> get2 e then Inr (False, c)
                else
                  (case remove_' cacheEntry
                          (c\<lparr>current_size := current_size c - calc_size c (get1 e),
                             cache_map := (cache_map c)(key := None)\<rparr>) of
                     Inl f \<Rightarrow> Inl f
                   | Inr c' \<Rightarrow> Inr (True, c')))))"

definition add :: "'k \<Rightarrow> 'v \<Rightarrow> bool \<Rightarrow> ('k, 'v, 'o) cache \<Rightarrow> fault + ('k, 'v, 'o) cache" where
  "add key val dirty c =
     (if strong c then add_' key val dirty c
      else
        (case remove_dirty key dirty c of
           Inl f \<Rightarrow> Inl f
         | Inr (removed, c') \<Rightarrow> if removed then add_' key val dirty c' else Inr c'))"

text \<open>
  The two overloads of \<^verbatim>\<open>merge\<close> are \<open>merge_cache\<close> and \<open>merge_key\<close>.
  \<^verbatim>\<open>merge(other)\<close> walks the other cache's eviction list from \<^verbatim>\<open>begin()\<close>; the argument
  is that list's entries in order.
\<close>

fun merge_cache ::
  "('k, 'v) entry_type list \<Rightarrow> ('k, 'v, 'o) cache \<Rightarrow> fault + ('k, 'v, 'o) cache" where
  "merge_cache [] c = Inr c"
| "merge_cache (element # rest) c =
     (if strong c then
        (case add_' (get0 element) (get1 element) (get2 element) c of
           Inl f \<Rightarrow> Inl f
         | Inr c' \<Rightarrow> merge_cache rest c')
      else
        (case remove_dirty (get0 element) (get2 element) c of
           Inl f \<Rightarrow> Inl f
         | Inr (removed, c') \<Rightarrow>
             if removed then
               (case add_' (get0 element) (get1 element) (get2 element) c' of
                  Inl f \<Rightarrow> Inl f
                | Inr c'' \<Rightarrow> merge_cache rest c'')
             else merge_cache rest c'))"

text \<open>
  \<^verbatim>\<open>merge(key, value, dirty)\<close>.  The source takes the reference \<^verbatim>\<open>old_value\<close> to the
  pointer in the node and calls \<^verbatim>\<open>old_value->merge(*value)\<close> and, if the result is too
  large, \<^verbatim>\<open>old_value->trim(max_size)\<close>.  Both calls change the object that the pointer
  points to, in place: the node keeps its pointer, and every other node and every
  caller that holds the same pointer sees the new content.  \<open>value_merge\<close> and
  \<open>value_trim\<close> are the two calls.

  Modelled from the spec: the value type's own \<^verbatim>\<open>merge\<close> and \<^verbatim>\<open>trim\<close> are not part of the
  header.  The spec asks for "a combine operation (merge another value of the same type
  into this one, in place)" and "a trim operation (reduce content to fit within a given
  unit budget)": a call changes the object it is made on and no other, and the new
  content is \<open>vmerge\<close> of the two contents, or \<open>vtrim\<close> of the content and the budget.
  \<open>vmerge\<close> and \<open>vtrim\<close> are parameters.
\<close>

definition value_merge ::
  "('o \<Rightarrow> 'o \<Rightarrow> 'o) \<Rightarrow> 'v \<Rightarrow> 'v \<Rightarrow> ('k, 'v, 'o) cache \<Rightarrow> ('k, 'v, 'o) cache" where
  "value_merge vmerge this other c =
     c\<lparr>memory := (memory c)(this := vmerge (memory c this) (memory c other))\<rparr>"

definition value_trim ::
  "('o \<Rightarrow> size_type \<Rightarrow> 'o) \<Rightarrow> 'v \<Rightarrow> size_type \<Rightarrow> ('k, 'v, 'o) cache \<Rightarrow> ('k, 'v, 'o) cache" where
  "value_trim vtrim this n c = c\<lparr>memory := (memory c)(this := vtrim (memory c this) n)\<rparr>"

definition merge_key ::
  "('o \<Rightarrow> 'o \<Rightarrow> 'o) \<Rightarrow> ('o \<Rightarrow> size_type \<Rightarrow> 'o) \<Rightarrow>
     'k \<Rightarrow> 'v \<Rightarrow> bool \<Rightarrow> ('k, 'v, 'o) cache \<Rightarrow> fault + ('k, 'v, 'o) cache" where
  "merge_key vmerge vtrim key val dirty c =
     (if strong c then add_' key val dirty c
      else
        (case cache_map c key of
           None \<Rightarrow> add_' key val dirty c
         | Some mapIt \<Rightarrow>
             (case deref c mapIt of
                None \<Rightarrow> Inl Invalid_iterator
              | Some e \<Rightarrow>
                  (let old_value = get1 e;
                       old_size = calc_size c old_value
                   in (case touch_' mapIt (value_merge vmerge old_value val c) of
                         Inl f \<Rightarrow> Inl f
                       | Inr c1 \<Rightarrow>
                           (let size1 = calc_size c1 old_value;
                                over = (0 < max_size c1 \<and> max_size c1 < size1);
                                c2 = (if over then value_trim vtrim old_value (max_size c1) c1
                                      else c1);
                                new_size = (if over then max_size c1 else size1);
                                c3 = (if old_size < new_size
                                      then c2\<lparr>current_size :=
                                                current_size c2 + (new_size - old_size)\<rparr>
                                      else if new_size < old_size
                                      then c2\<lparr>current_size :=
                                                current_size c2 - (old_size - new_size)\<rparr>
                                      else c2)
                            in fit_' c3))))))"

definition resize :: "size_type \<Rightarrow> ('k, 'v, 'o) cache \<Rightarrow> fault + ('k, 'v, 'o) cache" where
  "resize new_max c = fit_' (c\<lparr>max_size := new_max\<rparr>)"

definition clear :: "('k, 'v, 'o) cache \<Rightarrow> ('k, 'v, 'o) cache" where
  "clear c = (clear_' c)\<lparr>cache_map := Map.empty, current_size := 0\<rparr>"

text \<open>
  \<^verbatim>\<open>get(key, ret, do_touch)\<close> returns 0 and sets \<^verbatim>\<open>ret\<close>, or returns -1: the value is
  \<open>Some ret\<close> or \<open>None\<close>, next to the cache after the touch.
\<close>

definition get ::
  "'k \<Rightarrow> bool \<Rightarrow> ('k, 'v, 'o) cache \<Rightarrow> fault + ('v option \<times> ('k, 'v, 'o) cache)" where
  "get key do_touch c =
     (if do_touch then
        (case touch key c of
           Inl f \<Rightarrow> Inl f
         | Inr (None, c') \<Rightarrow> Inr (None, c')
         | Inr (Some elemIt, c') \<Rightarrow>
             (case deref c' elemIt of
                None \<Rightarrow> Inl Invalid_iterator
              | Some e \<Rightarrow> Inr (Some (get1 e), c')))
      else
        (case cache_map c key of
           None \<Rightarrow> Inr (None, c)
         | Some elemIt \<Rightarrow>
             (case deref c elemIt of
                None \<Rightarrow> Inl Invalid_iterator
              | Some e \<Rightarrow> Inr (Some (get1 e), c))))"

definition remove_key :: "'k \<Rightarrow> ('k, 'v, 'o) cache \<Rightarrow> fault + ('k, 'v, 'o) cache" where
  "remove_key key c =
     (case remove_dirty key False c of
        Inl f \<Rightarrow> Inl f
      | Inr (removed, c') \<Rightarrow> Inr c')"

text \<open>The read accessors \<^verbatim>\<open>exists\<close>, \<^verbatim>\<open>size\<close> and \<^verbatim>\<open>empty\<close>.\<close>

definition exists_key :: "'k \<Rightarrow> ('k, 'v, 'o) cache \<Rightarrow> bool" where
  "exists_key key c = (cache_map c key \<noteq> None)"

definition size_cache :: "('k, 'v, 'o) cache \<Rightarrow> size_type" where
  "size_cache c = current_size c"

definition empty_cache :: "('k, 'v, 'o) cache \<Rightarrow> bool" where
  "empty_cache c = (0 = size_cache c)"

section \<open>Size functors of the test file\<close>

text \<open>
  The default \<^verbatim>\<open>size_calc\<close> counts every value as one unit; the test file specialises it
  for \<^verbatim>\<open>std::string\<close> to the length.
\<close>

definition unit_size :: "'v \<Rightarrow> size_type" where
  "unit_size v = 1"

definition string_size :: "string \<Rightarrow> size_type" where
  "string_size s = of_nat (length s)"

section \<open>Sequences of public operations\<close>

text \<open>
  A client's use of a cache is a list of public calls, run from left to right; a call
  that runs into undefined behaviour ends the run with the fault.  The result of
  \<^verbatim>\<open>get\<close> is dropped here, the touched cache is kept.  Between two calls the memory
  stays as it is: according to the spec a client does not change a value that it has
  handed to the cache, except through the cache.
\<close>

datatype ('k, 'v) operation =
    Add 'k 'v bool
  | Merge 'k 'v bool
  | Merge_cache "('k, 'v) entry_type list"
  | Resize size_type
  | Clear
  | Get 'k bool
  | Remove 'k

fun perform ::
  "('o \<Rightarrow> 'o \<Rightarrow> 'o) \<Rightarrow> ('o \<Rightarrow> size_type \<Rightarrow> 'o) \<Rightarrow>
     ('k, 'v) operation \<Rightarrow> ('k, 'v, 'o) cache \<Rightarrow> fault + ('k, 'v, 'o) cache" where
  "perform vmerge vtrim (Add key val dirty) c = add key val dirty c"
| "perform vmerge vtrim (Merge key val dirty) c = merge_key vmerge vtrim key val dirty c"
| "perform vmerge vtrim (Merge_cache other) c = merge_cache other c"
| "perform vmerge vtrim (Resize new_max) c = resize new_max c"
| "perform vmerge vtrim Clear c = Inr (clear c)"
| "perform vmerge vtrim (Get key do_touch) c =
     (case get key do_touch c of Inl f \<Rightarrow> Inl f | Inr (ret, c') \<Rightarrow> Inr c')"
| "perform vmerge vtrim (Remove key) c = remove_key key c"

fun run ::
  "('o \<Rightarrow> 'o \<Rightarrow> 'o) \<Rightarrow> ('o \<Rightarrow> size_type \<Rightarrow> 'o) \<Rightarrow>
     ('k, 'v) operation list \<Rightarrow> ('k, 'v, 'o) cache \<Rightarrow> fault + ('k, 'v, 'o) cache" where
  "run vmerge vtrim [] c = Inr c"
| "run vmerge vtrim (x # xs) c =
     (case perform vmerge vtrim x c of
        Inl f \<Rightarrow> Inl f
      | Inr c' \<Rightarrow> run vmerge vtrim xs c')"

section \<open>Invariants\<close>

text \<open>
  The index and the eviction list describe the same entries: node identities are
  distinct and below \<open>next_node\<close>, keys are distinct, and the index maps a key to a node
  exactly when that node is in the list and holds the key.
\<close>

definition idx_ok ::
  "(iterator \<times> ('k, 'v) entry_type) list \<Rightarrow> ('k \<rightharpoonup> iterator) \<Rightarrow> nat \<Rightarrow> bool" where
  "idx_ok xs m nx \<longleftrightarrow>
     distinct (map fst xs) \<and>
     (\<forall>n \<in> set xs. fst n < nx) \<and>
     distinct (map (\<lambda>n. get0 (snd n)) xs) \<and>
     (\<forall>k it. (m k = Some it) = (\<exists>e. (it, e) \<in> set xs \<and> get0 e = k))"

definition index_inv :: "('k, 'v, 'o) cache \<Rightarrow> bool" where
  "index_inv c = idx_ok (eviction_list c) (cache_map c) (next_node c)"

text \<open>
  The sum of the size functor over the live values, in \<^verbatim>\<open>size_type\<close> arithmetic as
  \<^verbatim>\<open>current_size\<close> itself.
\<close>

definition live_size :: "('k, 'v, 'o) cache \<Rightarrow> size_type" where
  "live_size c = sum_list (map (\<lambda>n. calc_size c (get1 (snd n))) (eviction_list c))"

definition cache_inv :: "('k, 'v, 'o) cache \<Rightarrow> bool" where
  "cache_inv c \<longleftrightarrow>
     index_inv c \<and> current_size c = live_size c \<and> (strong c \<longrightarrow> eviction_list c = [])"

definition within_capacity :: "('k, 'v, 'o) cache \<Rightarrow> bool" where
  "within_capacity c \<longleftrightarrow> (0 < max_size c \<longrightarrow> current_size c \<le> max_size c)"

text \<open>The test of the loop in \<^verbatim>\<open>fit_\<close> and one run of its body.\<close>

definition over_budget :: "('k, 'v, 'o) cache \<Rightarrow> bool" where
  "over_budget c \<longleftrightarrow> 0 < max_size c \<and> max_size c < current_size c"

definition evict_back :: "('k, 'v, 'o) cache \<Rightarrow> ('k, 'v, 'o) cache" where
  "evict_back c =
     c\<lparr>eviction_list := butlast (eviction_list c),
       cache_map := (cache_map c)(get0 (snd (last (eviction_list c))) := None),
       current_size := current_size c - calc_size c (get1 (snd (last (eviction_list c))))\<rparr>"

text \<open>
  The list after \<^verbatim>\<open>splice\<close> has moved node \<open>it\<close>, holding \<open>e\<close>, to the front (LRU) or to
  the back (MRU).
\<close>

definition splice ::
  "strategy \<Rightarrow> iterator \<Rightarrow> ('k, 'v) entry_type \<Rightarrow>
     (iterator \<times> ('k, 'v) entry_type) list \<Rightarrow> (iterator \<times> ('k, 'v) entry_type) list" where
  "splice ev it e xs =
     (case ev of
        LRU \<Rightarrow> (it, e) # filter (\<lambda>n. fst n \<noteq> it) xs
      | MRU \<Rightarrow> filter (\<lambda>n. fst n \<noteq> it) xs @ [(it, e)])"

text \<open>
  Modelled from the spec: the value type's \<^verbatim>\<open>trim\<close> is not part of the header.  The
  spec requires the value to be "trimmed to fit exactly \<^verbatim>\<open>max_size\<close> units", and
  \<^verbatim>\<open>merge\<close> relies on it when it sets \<^verbatim>\<open>new_size = max_size\<close> after the call: trimming a
  larger value to a positive budget gives a value of exactly that size.
\<close>

definition trim_exact :: "('o \<Rightarrow> size_type) \<Rightarrow> ('o \<Rightarrow> size_type \<Rightarrow> 'o) \<Rightarrow> bool" where
  "trim_exact sc vtrim \<longleftrightarrow> (\<forall>v n. 0 < n \<and> n < sc v \<longrightarrow> sc (vtrim v n) = n)"

text \<open>
  The subtraction in \<^verbatim>\<open>remove\<close> stays in range: the entry to remove is not larger than
  \<^verbatim>\<open>current_size\<close>.  \<open>removes_in_range\<close> asks this of every \<^verbatim>\<open>remove\<close> of a run.
\<close>

definition remove_in_range :: "('k, 'v) operation \<Rightarrow> ('k, 'v, 'o) cache \<Rightarrow> bool" where
  "remove_in_range x c =
     (case x of
        Remove key \<Rightarrow>
          (case cache_map c key of
             None \<Rightarrow> True
           | Some it \<Rightarrow>
               (case deref c it of
                  None \<Rightarrow> True
                | Some e \<Rightarrow> calc_size c (get1 e) \<le> current_size c))
      | _ \<Rightarrow> True)"

fun removes_in_range ::
  "('o \<Rightarrow> 'o \<Rightarrow> 'o) \<Rightarrow> ('o \<Rightarrow> size_type \<Rightarrow> 'o) \<Rightarrow>
     ('k, 'v) operation list \<Rightarrow> ('k, 'v, 'o) cache \<Rightarrow> bool" where
  "removes_in_range vmerge vtrim [] c = True"
| "removes_in_range vmerge vtrim (x # xs) c =
     (remove_in_range x c \<and>
      (case perform vmerge vtrim x c of
         Inl f \<Rightarrow> True
       | Inr c' \<Rightarrow> removes_in_range vmerge vtrim xs c'))"

text \<open>
  \<^verbatim>\<open>merge(key, value, dirty)\<close> on a key that is present accounts for the change of one
  entry, and after a trim it takes \<^verbatim>\<open>max_size\<close> for the new size.  The accounting is
  right when the object merged into is held by the node of the key alone, and when the
  trim, if there is one, leaves a content of exactly \<^verbatim>\<open>max_size\<close> units.
  \<open>merges_accounted\<close> asks this of every such \<^verbatim>\<open>merge\<close> of a run.
\<close>

definition sole_owner :: "('k, 'v, 'o) cache \<Rightarrow> iterator \<Rightarrow> 'v \<Rightarrow> bool" where
  "sole_owner c it value \<longleftrightarrow>
     (\<forall>n \<in> set (eviction_list c). get1 (snd n) = value \<longrightarrow> fst n = it)"

definition trims_to_budget ::
  "('o \<Rightarrow> 'o \<Rightarrow> 'o) \<Rightarrow> ('o \<Rightarrow> size_type \<Rightarrow> 'o) \<Rightarrow> 'v \<Rightarrow> 'v \<Rightarrow> ('k, 'v, 'o) cache \<Rightarrow> bool" where
  "trims_to_budget vmerge vtrim old_value val c \<longleftrightarrow>
     (let merged = vmerge (memory c old_value) (memory c val)
      in 0 < max_size c \<and> max_size c < size_calc c merged \<longrightarrow>
           size_calc c (vtrim merged (max_size c)) = max_size c)"

definition merge_accounted ::
  "('o \<Rightarrow> 'o \<Rightarrow> 'o) \<Rightarrow> ('o \<Rightarrow> size_type \<Rightarrow> 'o) \<Rightarrow>
     ('k, 'v) operation \<Rightarrow> ('k, 'v, 'o) cache \<Rightarrow> bool" where
  "merge_accounted vmerge vtrim x c =
     (case x of
        Merge key val dirty \<Rightarrow>
          (if strong c then True
           else
             (case cache_map c key of
                None \<Rightarrow> True
              | Some it \<Rightarrow>
                  (case deref c it of
                     None \<Rightarrow> True
                   | Some e \<Rightarrow>
                       sole_owner c it (get1 e) \<and>
                       trims_to_budget vmerge vtrim (get1 e) val c)))
      | _ \<Rightarrow> True)"

fun merges_accounted ::
  "('o \<Rightarrow> 'o \<Rightarrow> 'o) \<Rightarrow> ('o \<Rightarrow> size_type \<Rightarrow> 'o) \<Rightarrow>
     ('k, 'v) operation list \<Rightarrow> ('k, 'v, 'o) cache \<Rightarrow> bool" where
  "merges_accounted vmerge vtrim [] c = True"
| "merges_accounted vmerge vtrim (x # xs) c =
     (merge_accounted vmerge vtrim x c \<and>
      (case perform vmerge vtrim x c of
         Inl f \<Rightarrow> True
       | Inr c' \<Rightarrow> merges_accounted vmerge vtrim xs c'))"


text \<open>
  The sum of the sizes of the live values as a natural number, with no wrap-around.
\<close>

definition exact_total :: "('k, 'v, 'o) cache \<Rightarrow> nat" where
  "exact_total c = sum_list (map (\<lambda>n. unat (calc_size c (get1 (snd n)))) (eviction_list c))"

section \<open>Value types used as examples\<close>

text \<open>
  Counters: the value is a \<^verbatim>\<open>size_t\<close> that counts for its own amount, values are merged
  by addition and trimmed to a budget by taking the minimum.  Strings, as in the test
  file: merged by appending, trimmed by truncation.
\<close>

definition counter_size :: "size_type \<Rightarrow> size_type" where
  "counter_size v = v"

definition counter_merge :: "size_type \<Rightarrow> size_type \<Rightarrow> size_type" where
  "counter_merge a b = a + b"

definition counter_trim :: "size_type \<Rightarrow> size_type \<Rightarrow> size_type" where
  "counter_trim v n = min v n"

definition string_merge :: "string \<Rightarrow> string \<Rightarrow> string" where
  "string_merge a b = a @ b"

definition string_trim :: "string \<Rightarrow> size_type \<Rightarrow> string" where
  "string_trim v n = take (unat n) v"

text \<open>
  Strings that count two units for each character cannot be trimmed to an odd budget:
  \<open>halving_trim\<close> keeps as many characters as fit.
\<close>

definition double_size :: "string \<Rightarrow> size_type" where
  "double_size s = 2 * of_nat (length s)"

definition halving_trim :: "string \<Rightarrow> size_type \<Rightarrow> string" where
  "halving_trim v n = take (unat n div 2) v"

text \<open>
  Pointers to strings: the pointer \<open>p\<close> points to the \<open>p\<close>-th string of a list, which
  is the memory before the first operation.
\<close>

definition strings_at :: "string list \<Rightarrow> nat \<Rightarrow> string" where
  "strings_at xs p = (if p < length xs then xs ! p else [])"

text \<open>
  The cache of the test "Dirty Entries" after \<^verbatim>\<open>add(0, 15, false)\<close>; a cache of strings
  with capacity 9 that holds \<open>"abc"\<close> under key 0; and an LRU cache of pointers to
  strings with capacity 5 after \<^verbatim>\<open>add(0, p0)\<close>, \<^verbatim>\<open>add(1, p1)\<close> and \<^verbatim>\<open>add(2, p2)\<close>, where
  the pointers \<open>p0\<close>, \<open>p1\<close>, \<open>p2\<close> and a fourth one, \<open>p3\<close>, point to \<open>"ab"\<close>, \<open>"c"\<close>,
  \<open>"de"\<close> and \<open>"wxyz"\<close>.
\<close>

definition dirty_test_cache :: "(int, int, int) cache" where
  "dirty_test_cache =
     \<lparr>size_calc = unit_size, memory = id, evict = LRU, current_size = 1, max_size = 0,
      eviction_list = [(0, (0, 15, False))], next_node = 1,
      cache_map = [0 \<mapsto> 0], strong = False\<rparr>"

definition small_string_cache :: "(int, string, string) cache" where
  "small_string_cache =
     \<lparr>size_calc = string_size, memory = id, evict = LRU, current_size = 3, max_size = 9,
      eviction_list = [(0, (0, ''abc'', False))], next_node = 1,
      cache_map = [0 \<mapsto> 0], strong = False\<rparr>"

definition pointer_test_cache :: "(int, nat, string) cache" where
  "pointer_test_cache =
     \<lparr>size_calc = string_size, memory = strings_at [''ab'', ''c'', ''de'', ''wxyz''],
      evict = LRU, current_size = 5, max_size = 5,
      eviction_list = [(2, (2, 2, False)), (1, (1, 1, False)), (0, (0, 0, False))],
      next_node = 3, cache_map = [0 \<mapsto> 0, 1 \<mapsto> 1, 2 \<mapsto> 2], strong = False\<rparr>"

section \<open>The recency scenario of the tests\<close>

text \<open>
  The tests "Enforce the max_size limits" and "LRU Semantics" fill a cache of capacity
  \<open>N\<close> with the keys \<open>0, ..., N - 1\<close>, one unit each, read key 0 with a touch and
  insert one more key.  \<open>fill\<close> is the loop of insertions, \<open>recency_run\<close> the whole
  scenario with the new key \<open>N\<close>, and \<open>then_get\<close> is what a following
  \<^verbatim>\<open>get(key, ret)\<close> hands to the caller.
\<close>

fun fill :: "(nat \<Rightarrow> 'v) \<Rightarrow> nat \<Rightarrow> (nat, 'v, 'v) cache \<Rightarrow> fault + (nat, 'v, 'v) cache" where
  "fill val 0 c = Inr c"
| "fill val (Suc n) c =
     (case fill val n c of
        Inl f \<Rightarrow> Inl f
      | Inr c' \<Rightarrow> add n (val n) False c')"

definition recency_run :: "strategy \<Rightarrow> nat \<Rightarrow> (nat \<Rightarrow> 'v) \<Rightarrow> fault + (nat, 'v, 'v) cache" where
  "recency_run ev N val =
     (case fill val N (new_cache unit_size ev (of_nat N) False id) of
        Inl f \<Rightarrow> Inl f
      | Inr c1 \<Rightarrow>
          (case get 0 True c1 of
             Inl f \<Rightarrow> Inl f
           | Inr (ret, c2) \<Rightarrow> add N (val N) False c2))"

definition then_get :: "fault + ('k, 'v, 'o) cache \<Rightarrow> 'k \<Rightarrow> fault + 'v option" where
  "then_get r key =
     (case r of
        Inl f \<Rightarrow> Inl f
      | Inr c \<Rightarrow> map_sum id fst (get key True c))"

definition test_val :: "nat \<Rightarrow> int" where
  "test_val i = 15 + int i"

text \<open>The node that the \<open>k\<close>-th insertion of \<open>fill\<close> creates, and the filled cache.\<close>

definition fill_node :: "(nat \<Rightarrow> 'v) \<Rightarrow> nat \<Rightarrow> iterator \<times> (nat, 'v) entry_type" where
  "fill_node val k = (k, (k, val k, False))"

definition filled :: "strategy \<Rightarrow> nat \<Rightarrow> nat \<Rightarrow> (nat \<Rightarrow> 'v) \<Rightarrow> (nat, 'v, 'v) cache" where
  "filled ev n N val =
     \<lparr>size_calc = unit_size, memory = id, evict = ev, current_size = of_nat n,
      max_size = of_nat N,
      eviction_list =
        (case ev of
           LRU \<Rightarrow> map (fill_node val) (rev [0..<n])
         | MRU \<Rightarrow> map (fill_node val) [0..<n]),
      next_node = n, cache_map = (\<lambda>k. if k < n then Some k else None), strong = False\<rparr>"

section \<open>Lemmas on the index and the eviction list\<close>

lemma idx_okD1: "idx_ok xs m nx \<Longrightarrow> distinct (map fst xs)"
  and idx_okD2: "idx_ok xs m nx \<Longrightarrow> n \<in> set xs \<Longrightarrow> fst n < nx"
  and idx_okD3: "idx_ok xs m nx \<Longrightarrow> distinct (map (\<lambda>n. get0 (snd n)) xs)"
  and idx_okD4: "idx_ok xs m nx \<Longrightarrow> (m k = Some it) = (\<exists>e. (it, e) \<in> set xs \<and> get0 e = k)"
  unfolding idx_ok_def by blast+

lemma idx_okI:
  "distinct (map fst xs) \<Longrightarrow> (\<And>n. n \<in> set xs \<Longrightarrow> fst n < nx) \<Longrightarrow>
   distinct (map (\<lambda>n. get0 (snd n)) xs) \<Longrightarrow>
   (\<And>k it. (m k = Some it) = (\<exists>e. (it, e) \<in> set xs \<and> get0 e = k)) \<Longrightarrow> idx_ok xs m nx"
  unfolding idx_ok_def by blast

lemma same_key_same_node:
  assumes "distinct (map (\<lambda>n. get0 (snd n)) xs)" "(i, e) \<in> set xs" "(j, f) \<in> set xs" "get0 e = get0 f"
  shows "i = j \<and> e = f"
proof -
  have "inj_on (\<lambda>n. get0 (snd n)) (set xs)" using assms(1) by (simp add: distinct_map)
  from inj_onD[OF this, of "(i,e)" "(j,f)"] assms show ?thesis by simp
qed

lemma idx_ok_empty: "idx_ok [] Map.empty nx"
  by (simp add: idx_ok_def)

lemma idx_ok_pop_back:
  assumes ok: "idx_ok (xs @ [x]) m nx"
  shows "idx_ok xs (m(get0 (snd x) := None)) nx"
proof (rule idx_okI)
  show "distinct (map fst xs)" using idx_okD1[OF ok] by simp
  show "\<And>n. n \<in> set xs \<Longrightarrow> fst n < nx" using idx_okD2[OF ok] by simp
  show dk: "distinct (map (\<lambda>n. get0 (snd n)) xs)" using idx_okD3[OF ok] by simp
  fix k it
  have notin: "\<And>i e. (i, e) \<in> set xs \<Longrightarrow> get0 e \<noteq> get0 (snd x)"
    using idx_okD3[OF ok] by (auto simp: image_iff)
  show "((m(get0 (snd x) := None)) k = Some it) = (\<exists>e. (it, e) \<in> set xs \<and> get0 e = k)"
  proof (cases "k = get0 (snd x)")
    case True
    then show ?thesis using notin by auto
  next
    case False
    have "(m k = Some it) = (\<exists>e. (it, e) \<in> set (xs @ [x]) \<and> get0 e = k)"
      by (rule idx_okD4[OF ok])
    also have "\<dots> = (\<exists>e. (it, e) \<in> set xs \<and> get0 e = k)"
      using False by (cases x) auto
    finally show ?thesis using False by simp
  qed
qed

lemma idx_ok_erase:
  assumes ok: "idx_ok xs m nx" and at: "map_of xs it = Some e"
  shows "idx_ok (filter (\<lambda>n. fst n \<noteq> it) xs) (m(get0 e := None)) nx"
proof (rule idx_okI)
  from at have mem: "(it, e) \<in> set xs" by (rule map_of_SomeD)
  show "distinct (map fst (filter (\<lambda>n. fst n \<noteq> it) xs))"
    using idx_okD1[OF ok] by (rule distinct_map_filter)
  show "distinct (map (\<lambda>n. get0 (snd n)) (filter (\<lambda>n. fst n \<noteq> it) xs))"
    using idx_okD3[OF ok] by (rule distinct_map_filter)
  show "\<And>n. n \<in> set (filter (\<lambda>n. fst n \<noteq> it) xs) \<Longrightarrow> fst n < nx"
    using idx_okD2[OF ok] by simp
  fix k j
  show "((m(get0 e := None)) k = Some j) =
        (\<exists>f. (j, f) \<in> set (filter (\<lambda>n. fst n \<noteq> it) xs) \<and> get0 f = k)"
  proof (cases "k = get0 e")
    case True
    have "\<not> (\<exists>f. (j, f) \<in> set xs \<and> j \<noteq> it \<and> get0 f = get0 e)"
      using same_key_same_node[OF idx_okD3[OF ok] _ mem] by blast
    then show ?thesis using True by auto
  next
    case False
    have "\<And>f. (j, f) \<in> set xs \<Longrightarrow> get0 f = k \<Longrightarrow> j \<noteq> it"
      using eq_key_imp_eq_value[OF idx_okD1[OF ok] mem] False by blast
    then have "\<And>f. ((j, f) \<in> set (filter (\<lambda>n. fst n \<noteq> it) xs) \<and> get0 f = k)
             = ((j, f) \<in> set xs \<and> get0 f = k)"
      by auto
    then have "(\<exists>f. (j, f) \<in> set (filter (\<lambda>n. fst n \<noteq> it) xs) \<and> get0 f = k)
             = (\<exists>f. (j, f) \<in> set xs \<and> get0 f = k)"
      by (rule ex_cong1)
    then show ?thesis using False idx_okD4[OF ok, of k j] by simp
  qed
qed

lemma idx_ok_cong:
  assumes ok: "idx_ok xs m nx" and s: "set ys = set xs"
    and d1: "distinct (map fst ys)" and d2: "distinct (map (\<lambda>n. get0 (snd n)) ys)"
  shows "idx_ok ys m nx"
  using ok d1 d2 unfolding idx_ok_def s by simp

lemma splice_facts:
  assumes ok: "idx_ok xs m nx" and at: "map_of xs it = Some e"
  shows "set ((it, e) # filter (\<lambda>n. fst n \<noteq> it) xs) = set xs"
    and "distinct (map fst ((it, e) # filter (\<lambda>n. fst n \<noteq> it) xs))"
    and "distinct (map (\<lambda>n. get0 (snd n)) ((it, e) # filter (\<lambda>n. fst n \<noteq> it) xs))"
proof -
  from at have mem: "(it, e) \<in> set xs" by (rule map_of_SomeD)
  have only: "\<And>n. n \<in> set xs \<Longrightarrow> fst n = it \<Longrightarrow> n = (it, e)"
    using eq_key_imp_eq_value[OF idx_okD1[OF ok] mem] by (metis prod.collapse)
  show "set ((it, e) # filter (\<lambda>n. fst n \<noteq> it) xs) = set xs"
  proof (intro equalityI subsetI)
    fix n assume "n \<in> set ((it, e) # filter (\<lambda>n. fst n \<noteq> it) xs)"
    then show "n \<in> set xs" using mem by auto
  next
    fix n assume n: "n \<in> set xs"
    show "n \<in> set ((it, e) # filter (\<lambda>n. fst n \<noteq> it) xs)"
    proof (cases "fst n = it")
      case True
      then show ?thesis using only[OF n] by simp
    next
      case False
      then show ?thesis using n by simp
    qed
  qed
  have "it \<notin> fst ` set (filter (\<lambda>n. fst n \<noteq> it) xs)" by auto
  then show "distinct (map fst ((it, e) # filter (\<lambda>n. fst n \<noteq> it) xs))"
    using distinct_map_filter[OF idx_okD1[OF ok]] by simp
  have "get0 e \<notin> (\<lambda>n. get0 (snd n)) ` set (filter (\<lambda>n. fst n \<noteq> it) xs)"
  proof
    assume "get0 e \<in> (\<lambda>n. get0 (snd n)) ` set (filter (\<lambda>n. fst n \<noteq> it) xs)"
    then obtain n where n: "n \<in> set xs" "fst n \<noteq> it" "get0 (snd n) = get0 e"
      by auto
    from n(1) have "(fst n, snd n) \<in> set xs" by simp
    from same_key_same_node[OF idx_okD3[OF ok] this mem n(3)] n(2) show False by simp
  qed
  then show "distinct (map (\<lambda>n. get0 (snd n)) ((it, e) # filter (\<lambda>n. fst n \<noteq> it) xs))"
    using distinct_map_filter[OF idx_okD3[OF ok]] by simp
qed

lemma idx_ok_splice_front:
  assumes ok: "idx_ok xs m nx" and at: "map_of xs it = Some e"
  shows "idx_ok ((it, e) # filter (\<lambda>n. fst n \<noteq> it) xs) m nx"
  by (rule idx_ok_cong[OF ok splice_facts[OF ok at]])

lemma idx_ok_splice_back:
  assumes ok: "idx_ok xs m nx" and at: "map_of xs it = Some e"
  shows "idx_ok (filter (\<lambda>n. fst n \<noteq> it) xs @ [(it, e)]) m nx"
proof (rule idx_ok_cong[OF ok])
  show "set (filter (\<lambda>n. fst n \<noteq> it) xs @ [(it, e)]) = set xs"
    using splice_facts(1)[OF ok at] by simp
  show "distinct (map fst (filter (\<lambda>n. fst n \<noteq> it) xs @ [(it, e)]))"
    using splice_facts(2)[OF ok at] by simp
  show "distinct (map (\<lambda>n. get0 (snd n)) (filter (\<lambda>n. fst n \<noteq> it) xs @ [(it, e)]))"
    using splice_facts(3)[OF ok at] by simp
qed

lemma idx_ok_push:
  assumes ok: "idx_ok xs m nx" and absent: "m k = None" and e: "get0 e = k"
  shows "idx_ok ((nx, e) # xs) (m(k \<mapsto> nx)) (Suc nx)"
    and "idx_ok (xs @ [(nx, e)]) (m(k \<mapsto> nx)) (Suc nx)"
proof -
  have fresh: "nx \<notin> fst ` set xs"
  proof
    assume "nx \<in> fst ` set xs"
    then obtain n where "n \<in> set xs" "fst n = nx" by (metis imageE)
    with idx_okD2[OF ok, of n] show False by simp
  qed
  have nokey: "k \<notin> (\<lambda>n. get0 (snd n)) ` set xs"
  proof
    assume "k \<in> (\<lambda>n. get0 (snd n)) ` set xs"
    then obtain n where n: "n \<in> set xs" "get0 (snd n) = k" by (metis imageE)
    then have "(fst n, snd n) \<in> set xs" by simp
    with n(2) have "m k = Some (fst n)" using idx_okD4[OF ok, of k "fst n"] by blast
    with absent show False by simp
  qed
  have lt: "\<And>n. n \<in> set xs \<Longrightarrow> fst n < Suc nx"
    using idx_okD2[OF ok] less_Suc_eq by blast
  have bij: "((m(k \<mapsto> nx)) k' = Some it) = (\<exists>f. (it, f) \<in> set ((nx, e) # xs) \<and> get0 f = k')" for k' it
  proof (cases "k' = k")
    case True
    have "\<not> (\<exists>f. (it, f) \<in> set xs \<and> get0 f = k)"
      using nokey by (metis image_eqI snd_conv)
    then have "(\<exists>f. (it, f) \<in> set ((nx, e) # xs) \<and> get0 f = k) = (it = nx)"
      using e by (metis list.set_intros(1) set_ConsD prod.inject)
    moreover have "((m(k \<mapsto> nx)) k = Some it) = (it = nx)" by auto
    ultimately show ?thesis using True by simp
  next
    case False
    have "\<And>f. (it, f) \<in> set xs \<Longrightarrow> it \<noteq> nx"
      using fresh by (metis image_eqI fst_conv)
    then have "(\<exists>f. (it, f) \<in> set ((nx, e) # xs) \<and> get0 f = k') = (\<exists>f. (it, f) \<in> set xs \<and> get0 f = k')"
      using False e by (metis list.set_intros(2) set_ConsD prod.inject)
    then show ?thesis using False idx_okD4[OF ok, of k' it] by simp
  qed
  show "idx_ok ((nx, e) # xs) (m(k \<mapsto> nx)) (Suc nx)"
  proof (rule idx_okI)
    show "distinct (map fst ((nx, e) # xs))" using idx_okD1[OF ok] fresh by simp
    show "distinct (map (\<lambda>n. get0 (snd n)) ((nx, e) # xs))"
      using idx_okD3[OF ok] nokey e by simp
    show "\<And>n. n \<in> set ((nx, e) # xs) \<Longrightarrow> fst n < Suc nx" using lt by auto
    show "\<And>k' it. ((m(k \<mapsto> nx)) k' = Some it) = (\<exists>f. (it, f) \<in> set ((nx, e) # xs) \<and> get0 f = k')"
      by (rule bij)
  qed
  show "idx_ok (xs @ [(nx, e)]) (m(k \<mapsto> nx)) (Suc nx)"
  proof (rule idx_okI)
    show "distinct (map fst (xs @ [(nx, e)]))" using idx_okD1[OF ok] fresh by simp
    show "distinct (map (\<lambda>n. get0 (snd n)) (xs @ [(nx, e)]))"
      using idx_okD3[OF ok] nokey e by simp
    show "\<And>n. n \<in> set (xs @ [(nx, e)]) \<Longrightarrow> fst n < Suc nx" using lt by auto
    show "\<And>k' it. ((m(k \<mapsto> nx)) k' = Some it) = (\<exists>f. (it, f) \<in> set (xs @ [(nx, e)]) \<and> get0 f = k')"
      using bij by simp
  qed
qed

lemma sum_splice:
  fixes f :: "iterator \<times> ('k, 'v) entry_type \<Rightarrow> size_type"
  assumes "distinct (map fst xs)" "map_of xs it = Some e"
  shows "sum_list (map f xs) = f (it, e) + sum_list (map f (filter (\<lambda>n. fst n \<noteq> it) xs))"
  using assms
proof (induction xs)
  case Nil then show ?case by simp
next
  case (Cons a xs)
  show ?case
  proof (cases "fst a = it")
    case True
    with Cons.prems have a: "a = (it, e)" by (cases a) simp
    have "filter (\<lambda>n. fst n \<noteq> it) xs = xs"
      using Cons.prems(1) True by (auto simp: filter_id_conv image_iff)
    then show ?thesis using a by simp
  next
    case False
    with Cons show ?thesis by (cases a) (simp add: algebra_simps)
  qed
qed

lemma ex_node_iff:
  "(\<exists>e. (it, e) \<in> set zs \<and> get0 e = k) = ((it, k) \<in> (\<lambda>n. (fst n, get0 (snd n))) ` set zs)"
  by (force simp: image_iff)

lemma idx_ok_same_keys:
  assumes ok: "idx_ok xs m nx"
    and same: "map (\<lambda>n. (fst n, get0 (snd n))) ys = map (\<lambda>n. (fst n, get0 (snd n))) xs"
  shows "idx_ok ys m nx"
proof -
  have f: "map fst ys = map fst xs"
    using arg_cong[OF same, of "map fst"] by (simp add: comp_def)
  have k: "map (\<lambda>n. get0 (snd n)) ys = map (\<lambda>n. get0 (snd n)) xs"
    using arg_cong[OF same, of "map snd"] by (simp add: comp_def)
  have s: "(\<lambda>n. (fst n, get0 (snd n))) ` set ys = (\<lambda>n. (fst n, get0 (snd n))) ` set xs"
    using arg_cong[OF same, of set] by simp
  show ?thesis
  proof (rule idx_okI)
    show "distinct (map fst ys)" using idx_okD1[OF ok] f by simp
    show "distinct (map (\<lambda>n. get0 (snd n)) ys)" using idx_okD3[OF ok] k by simp
    show "fst n < nx" if "n \<in> set ys" for n
    proof -
      from that have "fst n \<in> set (map fst ys)" by simp
      then have "fst n \<in> set (map fst xs)" by (simp only: f)
      then obtain n' where "n' \<in> set xs" "fst n' = fst n" by auto
      then show ?thesis using idx_okD2[OF ok, of n'] by simp
    qed
    show "(m k = Some it) = (\<exists>e. (it, e) \<in> set ys \<and> get0 e = k)" for k it
    proof -
      have "(m k = Some it) = ((it, k) \<in> (\<lambda>n. (fst n, get0 (snd n))) ` set xs)"
        using idx_okD4[OF ok, of k it] by (simp only: ex_node_iff)
      also have "\<dots> = ((it, k) \<in> (\<lambda>n. (fst n, get0 (snd n))) ` set ys)"
        by (simp only: s)
      also have "\<dots> = (\<exists>e. (it, e) \<in> set ys \<and> get0 e = k)"
        by (rule ex_node_iff[symmetric])
      finally show ?thesis .
    qed
  qed
qed

section \<open>The eviction loop\<close>

declare fit_'.simps [simp del]

lemma fit_unfold:
  "fit_' c = (if over_budget c then
                (if eviction_list c = [] then Inl Empty_list_back else fit_' (evict_back c))
              else Inr c)"
  by (subst fit_'.simps) (simp add: over_budget_def evict_back_def Let_def)

lemma fit_rule:
  assumes "fit_' c = Inr c'" and "I c"
    and step: "\<And>d. I d \<Longrightarrow> over_budget d \<Longrightarrow> eviction_list d \<noteq> [] \<Longrightarrow> I (evict_back d)"
  shows "I c' \<and> \<not> over_budget c'"
  using assms(1,2)
proof (induction c rule: fit_'.induct)
  case (1 c)
  show ?case
  proof (cases "over_budget c")
    case False
    with "1.prems" show ?thesis by (simp add: fit_unfold[of c])
  next
    case True
    show ?thesis
    proof (cases "eviction_list c = []")
      case True
      with \<open>over_budget c\<close> "1.prems" show ?thesis by (simp add: fit_unfold[of c])
    next
      case False
      have run: "fit_' (evict_back c) = Inr c'"
        using "1.prems"(1) \<open>over_budget c\<close> False by (simp add: fit_unfold[of c])
      have "I (evict_back c)" using step[OF "1.prems"(2) \<open>over_budget c\<close> False] .
      from "1.IH"[OF _ False refl refl] \<open>over_budget c\<close> run this
      show ?thesis by (simp add: over_budget_def evict_back_def)
    qed
  qed
qed

lemma calc_size_update [simp]:
  "calc_size (eviction_list_update f1 c) = calc_size c"
  "calc_size (cache_map_update f2 c) = calc_size c"
  "calc_size (current_size_update f3 c) = calc_size c"
  "calc_size (next_node_update f4 c) = calc_size c"
  "calc_size (max_size_update f5 c) = calc_size c"
  by (simp_all add: calc_size_def)

lemma calc_size_cong:
  "size_calc a = size_calc b \<Longrightarrow> memory a = memory b \<Longrightarrow> calc_size a = calc_size b"
  by (simp add: calc_size_def)

lemma evict_back_fields [simp]:
  "calc_size (evict_back d) = calc_size d"
  "size_calc (evict_back d) = size_calc d"
  "memory (evict_back d) = memory d"
  "evict (evict_back d) = evict d"
  "max_size (evict_back d) = max_size d"
  "next_node (evict_back d) = next_node d"
  "strong (evict_back d) = strong d"
  "eviction_list (evict_back d) = butlast (eviction_list d)"
  "current_size (evict_back d) = current_size d - calc_size d (get1 (snd (last (eviction_list d))))"
  "cache_map (evict_back d) = (cache_map d)(get0 (snd (last (eviction_list d))) := None)"
  by (simp_all add: evict_back_def)

lemma index_inv_evict_back:
  assumes "index_inv d" "eviction_list d \<noteq> []"
  shows "index_inv (evict_back d)"
proof -
  have "idx_ok (butlast (eviction_list d) @ [last (eviction_list d)]) (cache_map d) (next_node d)"
    using assms by (simp add: index_inv_def)
  from idx_ok_pop_back[OF this] show ?thesis by (simp add: index_inv_def)
qed

lemma live_size_evict_back:
  assumes "eviction_list d \<noteq> []"
  shows "live_size (evict_back d) = live_size d - calc_size d (get1 (snd (last (eviction_list d))))"
proof -
  have "sum_list (map (\<lambda>n. calc_size d (get1 (snd n))) (butlast (eviction_list d) @ [last (eviction_list d)]))
        = sum_list (map (\<lambda>n. calc_size d (get1 (snd n))) (butlast (eviction_list d)))
          + calc_size d (get1 (snd (last (eviction_list d))))"
    by (simp only: map_append sum_list_append) simp
  then show ?thesis using assms by (simp add: live_size_def)
qed

lemma fit_fields:
  assumes "fit_' c = Inr c'"
  shows "calc_size c' = calc_size c \<and> size_calc c' = size_calc c \<and>
         memory c' = memory c \<and> evict c' = evict c \<and> max_size c' = max_size c \<and>
         next_node c' = next_node c \<and> strong c' = strong c"
  using fit_rule[OF assms, where I = "\<lambda>d. calc_size d = calc_size c \<and> size_calc d = size_calc c \<and>
         memory d = memory c \<and> evict d = evict c \<and>
         max_size d = max_size c \<and> next_node d = next_node c \<and> strong d = strong c"]
  by simp

lemma fit_capacity:
  assumes "fit_' c = Inr c'"
  shows "max_size c' = 0 \<or> current_size c' \<le> max_size c'"
  using fit_rule[OF assms, where I = "\<lambda>d. True"]
  by (simp add: over_budget_def word_gt_0 not_less)

lemma fit_index_inv:
  assumes "fit_' c = Inr c'" "index_inv c"
  shows "index_inv c'"
  using fit_rule[OF assms(1), where I = index_inv] assms(2) index_inv_evict_back by blast

lemma fit_pending:
  assumes "fit_' c = Inr c'"
  shows "current_size c' - live_size c' = current_size c - live_size c"
  using fit_rule[OF assms, where I = "\<lambda>d. current_size d - live_size d = current_size c - live_size c"]
  by (simp add: live_size_evict_back)

lemma fit_prefix:
  fixes c :: "('k, 'v, 'o) cache"
  assumes "fit_' c = Inr c'"
  shows "\<exists>ys. eviction_list c = eviction_list c' @ ys"
proof -
  have "\<exists>ys. eviction_list c = eviction_list (evict_back d) @ ys"
    if "\<exists>ys. eviction_list c = eviction_list d @ ys" "eviction_list d \<noteq> []"
    for d :: "('k, 'v, 'o) cache"
  proof -
    from that(1) obtain ys where "eviction_list c = eviction_list d @ ys" by blast
    then have "eviction_list c = butlast (eviction_list d) @ (last (eviction_list d) # ys)"
      using that(2) by simp
    then show ?thesis by simp
  qed
  then have "(\<exists>ys. eviction_list c = eviction_list c' @ ys) \<and> \<not> over_budget c'"
    by (intro fit_rule[OF assms, where I = "\<lambda>d. \<exists>ys. eviction_list c = eviction_list d @ ys"]) simp_all
  then show ?thesis by simp
qed

lemma fit_map_le:
  fixes c :: "('k, 'v, 'o) cache"
  assumes "fit_' c = Inr c'"
  shows "cache_map c' \<subseteq>\<^sub>m cache_map c"
proof -
  have "cache_map (evict_back d) \<subseteq>\<^sub>m cache_map c" if "cache_map d \<subseteq>\<^sub>m cache_map c"
    for d :: "('k, 'v, 'o) cache"
    using that by (auto simp: map_le_def dom_def split: if_splits)
  then have "cache_map c' \<subseteq>\<^sub>m cache_map c \<and> \<not> over_budget c'"
    by (intro fit_rule[OF assms, where I = "\<lambda>d. cache_map d \<subseteq>\<^sub>m cache_map c"]) simp_all
  then show ?thesis by simp
qed

lemma fit_within_budget:
  "\<not> over_budget c \<Longrightarrow> fit_' c = Inr c"
  by (simp add: fit_unfold[of c])

lemma fit_returns:
  assumes "current_size c = live_size c + p" "max_size c = 0 \<or> p \<le> max_size c"
  shows "\<exists>c'. fit_' c = Inr c'"
  using assms
proof (induction c rule: fit_'.induct)
  case (1 c)
  show ?case
  proof (cases "over_budget c")
    case False
    then show ?thesis by (simp add: fit_unfold[of c])
  next
    case True
    have ne: "eviction_list c \<noteq> []"
    proof
      assume "eviction_list c = []"
      then have "current_size c = p" using "1.prems"(1) by (simp add: live_size_def)
      with True "1.prems"(2) show False by (auto simp: over_budget_def)
    qed
    have a: "current_size (evict_back c) = live_size (evict_back c) + p"
      using "1.prems"(1) by (simp add: live_size_evict_back[OF ne])
    have b: "max_size (evict_back c) = 0 \<or> p \<le> max_size (evict_back c)"
      using "1.prems"(2) by simp
    have "\<exists>c'. fit_' (evict_back c) = Inr c'"
      using "1.IH"[OF _ ne refl refl] True a b by (simp add: over_budget_def evict_back_def)
    then show ?thesis using True ne by (simp add: fit_unfold[of c])
  qed
qed

lemma evict_back_funpow_fields [simp]:
  "size_calc ((evict_back ^^ m) c) = size_calc c"
  "memory ((evict_back ^^ m) c) = memory c"
  "max_size ((evict_back ^^ m) c) = max_size c"
  "evict ((evict_back ^^ m) c) = evict c"
  "strong ((evict_back ^^ m) c) = strong c"
  "next_node ((evict_back ^^ m) c) = next_node c"
  by (induction m) simp_all

lemma evict_back_funpow_list:
  "eviction_list ((evict_back ^^ m) c)
   = take (length (eviction_list c) - m) (eviction_list c)"
  by (induction m) (simp_all add: butlast_take)

lemma fit_steps:
  assumes "fit_' c = Inr c'"
  shows "\<exists>m. c' = (evict_back ^^ m) c \<and> m \<le> length (eviction_list c) \<and>
             (\<forall>i<m. over_budget ((evict_back ^^ i) c)) \<and> \<not> over_budget c'"
  using assms
proof (induction c rule: fit_'.induct)
  case (1 c)
  show ?case
  proof (cases "over_budget c")
    case False
    with "1.prems" have "c' = c" by (simp add: fit_unfold[of c])
    with False show ?thesis by (intro exI[of _ 0]) simp
  next
    case True
    show ?thesis
    proof (cases "eviction_list c = []")
      case True
      with \<open>over_budget c\<close> "1.prems" show ?thesis by (simp add: fit_unfold[of c])
    next
      case False
      have run: "fit_' (evict_back c) = Inr c'"
        using "1.prems" \<open>over_budget c\<close> False by (simp add: fit_unfold[of c])
      have ob: "0 < max_size c \<and> max_size c < current_size c"
        using \<open>over_budget c\<close> by (simp add: over_budget_def)
      note ih = "1.IH"[OF ob False refl refl, folded evict_back_def]
      from ih[OF run] obtain m where m: "c' = (evict_back ^^ m) (evict_back c)"
        "m \<le> length (eviction_list (evict_back c))"
        "\<forall>i<m. over_budget ((evict_back ^^ i) (evict_back c))" "\<not> over_budget c'"
        by blast
      have "c' = (evict_back ^^ Suc m) c" using m(1) by (simp add: funpow_swap1)
      moreover have "Suc m \<le> length (eviction_list c)"
        using m(2) False by (cases "eviction_list c" rule: rev_cases) simp_all
      moreover have "over_budget ((evict_back ^^ i) c)" if "i < Suc m" for i
      proof (cases i)
        case 0
        with \<open>over_budget c\<close> show ?thesis by simp
      next
        case (Suc j)
        with that m(3) have "over_budget ((evict_back ^^ j) (evict_back c))" by simp
        with Suc show ?thesis by (simp add: funpow_swap1)
      qed
      ultimately show ?thesis using m(4) by blast
    qed
  qed
qed

section \<open>Invariants of the operations\<close>

lemma deref_index:
  assumes "index_inv c" "cache_map c k = Some it"
  shows "\<exists>e. deref c it = Some e \<and> get0 e = k"
proof -
  from assms obtain e where e: "(it, e) \<in> set (eviction_list c)" "get0 e = k"
    using idx_okD4[OF assms(1)[unfolded index_inv_def], of k it] by blast
  have "map_of (eviction_list c) it = Some e"
    using assms(1) e(1) by (intro map_of_is_SomeI) (simp_all add: index_inv_def idx_okD1)
  with e(2) show ?thesis by (simp add: deref_def)
qed

lemma index_deref:
  assumes "index_inv c" "deref c it = Some e"
  shows "cache_map c (get0 e) = Some it"
proof -
  from assms(2) have "(it, e) \<in> set (eviction_list c)"
    by (simp add: deref_def map_of_SomeD)
  then show ?thesis
    using idx_okD4[OF assms(1)[unfolded index_inv_def], of "get0 e" it] by blast
qed

lemma touch__eq:
  "deref c it = Some e \<Longrightarrow>
   touch_' it c = Inr (c\<lparr>eviction_list := splice (evict c) it e (eviction_list c)\<rparr>)"
  by (simp add: touch_'_def splice_def Let_def)

lemma idx_ok_splice:
  assumes "idx_ok xs m nx" "map_of xs it = Some e"
  shows "idx_ok (splice ev it e xs) m nx"
  using idx_ok_splice_front[OF assms] idx_ok_splice_back[OF assms]
  by (cases ev) (simp_all add: splice_def)

lemma sum_splice_eq:
  fixes f :: "iterator \<times> ('k, 'v) entry_type \<Rightarrow> size_type"
  assumes "distinct (map fst xs)" "map_of xs it = Some e"
  shows "sum_list (map f (splice ev it e xs)) = sum_list (map f xs)"
  using sum_splice[OF assms, of f] by (cases ev) (simp_all add: splice_def)

lemma map_of_splice:
  assumes "distinct (map fst xs)" "map_of xs it = Some e"
  shows "map_of (splice ev it e xs) = map_of xs"
proof (rule ext)
  fix j
  have a: "map_of (filter (\<lambda>n. fst n \<noteq> it) xs) j = (if j = it then None else map_of xs j)"
    by (induction xs) auto
  show "map_of (splice ev it e xs) j = map_of xs j"
    using assms(2) a by (cases ev) (auto simp: splice_def map_add_def split: option.splits)
qed

lemma touch__inv:
  assumes inv: "index_inv c" and at: "deref c it = Some e"
  shows "\<exists>c'. touch_' it c = Inr c' \<and> index_inv c' \<and> live_size c' = live_size c \<and>
           deref c' = deref c \<and>
           cache_map c' = cache_map c \<and> current_size c' = current_size c \<and>
           max_size c' = max_size c \<and> calc_size c' = calc_size c \<and> size_calc c' = size_calc c \<and>
         memory c' = memory c \<and> evict c' = evict c \<and>
           strong c' = strong c \<and> next_node c' = next_node c \<and>
           eviction_list c' = splice (evict c) it e (eviction_list c)"
proof -
  have d: "distinct (map fst (eviction_list c))" using inv by (simp add: index_inv_def idx_okD1)
  have m: "map_of (eviction_list c) it = Some e" using at by (simp add: deref_def)
  show ?thesis
    unfolding touch__eq[OF at]
    using idx_ok_splice[OF inv[unfolded index_inv_def] m, of "evict c"]
      sum_splice_eq[OF d m] map_of_splice[OF d m, of "evict c"]
    by (simp add: index_inv_def live_size_def deref_def fun_eq_iff)
qed

lemma touch_inv:
  assumes inv: "index_inv c"
  shows "\<exists>c'. touch k c = Inr (cache_map c k, c') \<and> index_inv c' \<and> live_size c' = live_size c \<and>
           deref c' = deref c \<and>
           cache_map c' = cache_map c \<and> current_size c' = current_size c \<and>
           max_size c' = max_size c \<and> calc_size c' = calc_size c \<and> size_calc c' = size_calc c \<and>
         memory c' = memory c \<and> evict c' = evict c \<and>
           strong c' = strong c \<and> next_node c' = next_node c \<and>
           (cache_map c k = None \<longrightarrow> c' = c)"
proof (cases "cache_map c k")
  case None
  then show ?thesis using inv by (simp add: touch_def)
next
  case (Some it)
  from deref_index[OF inv Some] obtain e where e: "deref c it = Some e" by blast
  from touch__inv[OF inv e] obtain c' where c': "touch_' it c = Inr c'" "index_inv c'"
    "live_size c' = live_size c" "deref c' = deref c"
    "cache_map c' = cache_map c" "current_size c' = current_size c"
    "max_size c' = max_size c" "calc_size c' = calc_size c" "size_calc c' = size_calc c"
    "memory c' = memory c" "evict c' = evict c"
    "strong c' = strong c" "next_node c' = next_node c" by blast
  then show ?thesis using Some by (simp add: touch_def)
qed

lemma get_tuple [simp]: "get0 (k, v, d) = k" "get1 (k, v, d) = v" "get2 (k, v, d) = d"
  by (simp_all add: get0_def get1_def get2_def)

lemma remove_dirty_inv:
  assumes inv: "cache_inv c" and r: "remove_dirty k d c = Inr (b, c')"
  shows "cache_inv c' \<and> (b \<longrightarrow> cache_map c' k = None) \<and> (\<not> b \<longrightarrow> c' = c) \<and>
         max_size c' = max_size c \<and> calc_size c' = calc_size c \<and> size_calc c' = size_calc c \<and>
         memory c' = memory c \<and> evict c' = evict c \<and>
         strong c' = strong c"
proof (cases "cache_map c k")
  case None
  with r inv show ?thesis by (auto simp: remove_dirty_def)
next
  case (Some it)
  have iinv: "index_inv c" using inv by (simp add: cache_inv_def)
  from deref_index[OF iinv Some] obtain e where e: "deref c it = Some e" "get0 e = k" by blast
  show ?thesis
  proof (cases "d \<and> \<not> get2 e")
    case True
    with r Some e inv show ?thesis by (auto simp: remove_dirty_def)
  next
    case False
    let ?xs = "eviction_list c"
    have m: "map_of ?xs it = Some e" using e(1) by (simp add: deref_def)
    have c': "c' = c\<lparr>current_size := current_size c - calc_size c (get1 e),
                     cache_map := (cache_map c)(k := None),
                     eviction_list := filter (\<lambda>n. fst n \<noteq> it) ?xs\<rparr>" and b: "b"
      using r Some e False by (auto simp: remove_dirty_def remove_'_def deref_def)
    have i: "idx_ok (filter (\<lambda>n. fst n \<noteq> it) ?xs) ((cache_map c)(k := None)) (next_node c)"
      using idx_ok_erase[OF iinv[unfolded index_inv_def] m] e(2) by simp
    have d: "distinct (map fst ?xs)" using iinv by (simp add: index_inv_def idx_okD1)
    have s: "live_size c = calc_size c (get1 e) +
               sum_list (map (\<lambda>n. calc_size c (get1 (snd n))) (filter (\<lambda>n. fst n \<noteq> it) ?xs))"
      unfolding live_size_def using sum_splice[OF d m, of "\<lambda>n. calc_size c (get1 (snd n))"] by simp
    have st: "strong c \<Longrightarrow> False" using inv m by (simp add: cache_inv_def)
    show ?thesis
      using i s st inv b unfolding c' by (auto simp: cache_inv_def index_inv_def live_size_def)
  qed
qed

lemma remove_dirty_returns:
  assumes inv: "index_inv c"
  shows "\<exists>b c'. remove_dirty k d c = Inr (b, c')"
proof (cases "cache_map c k")
  case None
  then show ?thesis by (auto simp: remove_dirty_def)
next
  case (Some it)
  from deref_index[OF inv Some] obtain e where e: "deref c it = Some e" by blast
  then show ?thesis using Some by (auto simp: remove_dirty_def remove_'_def deref_def)
qed

lemma map_of_push_back:
  assumes "nx \<notin> fst ` set xs"
  shows "map_of (xs @ [(nx, e)]) nx = Some e"
proof -
  have "map_of xs nx = None" using assms by (simp add: map_of_eq_None_iff)
  then show ?thesis by (simp add: map_add_def)
qed

lemma add_insert_inv:
  assumes i: "index_inv c" and s: "current_size c = live_size c"
    and absent: "cache_map c k = None" and r: "add_insert k v d c = Inr c'"
  shows "index_inv c' \<and> current_size c' = live_size c' \<and>
         cache_map c' k = Some (next_node c) \<and> deref c' (next_node c) = Some (k, v, d) \<and>
         (max_size c' = 0 \<or> current_size c' \<le> max_size c') \<and> eviction_list c' \<noteq> [] \<and>
         max_size c' = max_size c \<and> calc_size c' = calc_size c \<and> size_calc c' = size_calc c \<and>
         memory c' = memory c \<and> evict c' = evict c \<and>
         strong c' = strong c"
proof -
  let ?c0 = "c\<lparr>current_size := current_size c + calc_size c v\<rparr>"
  from r obtain c1 where f: "fit_' ?c0 = Inr c1"
    by (auto simp: add_insert_def split: sum.splits)
  have c': "c' = c1\<lparr>eviction_list := (case evict c1 of LRU \<Rightarrow> (next_node c1, (k, v, d)) # eviction_list c1
                                        | MRU \<Rightarrow> eviction_list c1 @ [(next_node c1, (k, v, d))]),
                    next_node := Suc (next_node c1),
                    cache_map := (cache_map c1)(k \<mapsto> next_node c1)\<rparr>"
    using r f by (simp add: add_insert_def push_'_def Let_def)
  have fld: "calc_size c1 = calc_size c" "size_calc c1 = size_calc c" "memory c1 = memory c"
    "evict c1 = evict c" "max_size c1 = max_size c"
    "next_node c1 = next_node c" "strong c1 = strong c"
    using fit_fields[OF f] by simp_all
  have i1: "idx_ok (eviction_list c1) (cache_map c1) (next_node c)"
    using fit_index_inv[OF f] i fld by (simp add: index_inv_def)
  have p1: "current_size c1 = live_size c1 + calc_size c v"
    using fit_pending[OF f] s by (simp add: live_size_def algebra_simps)
  have a1: "cache_map c1 k = None"
    using fit_map_le[OF f] absent by (auto simp: map_le_def dom_def)
  have cap: "max_size c1 = 0 \<or> current_size c1 \<le> max_size c1" by (rule fit_capacity[OF f])
  have fresh: "next_node c \<notin> fst ` set (eviction_list c1)"
    using idx_okD2[OF i1] by fastforce
  note push = idx_ok_push[OF i1 a1, of "(k, v, d)", simplified]
  show ?thesis
  proof (cases "evict c")
    case LRU
    then show ?thesis
      unfolding c' using push(1) p1 cap fld
      by (simp add: index_inv_def live_size_def deref_def)
  next
    case MRU
    then show ?thesis
      unfolding c' using push(2) p1 cap fld map_of_push_back[OF fresh]
      by (simp add: index_inv_def live_size_def deref_def)
  qed
qed

lemma cache_inv_strong_empty:
  assumes "cache_inv c" "strong c"
  shows "cache_map c k = None"
proof (cases "cache_map c k")
  case None then show ?thesis .
next
  case (Some it)
  from assms have "index_inv c" "eviction_list c = []" by (simp_all add: cache_inv_def)
  with deref_index[OF this(1) Some] show ?thesis by (simp add: deref_def)
qed

lemma add__inv:
  assumes inv: "cache_inv c" and absent: "\<not> strong c \<longrightarrow> cache_map c k = None"
    and r: "add_' k v d c = Inr c'"
  shows "cache_inv c' \<and> (c' = c \<or> (max_size c' = 0 \<or> current_size c' \<le> max_size c')) \<and>
         max_size c' = max_size c \<and> calc_size c' = calc_size c \<and> size_calc c' = size_calc c \<and>
         memory c' = memory c \<and> evict c' = evict c \<and>
         strong c' = strong c"
proof (cases "strong c")
  case True
  have "touch k c = Inr (None, c)"
    using cache_inv_strong_empty[OF inv True, of k] by (simp add: touch_def)
  with r True have "c' = c" by (simp add: add_'_def)
  with inv show ?thesis by simp
next
  case False
  with r have r': "add_insert k v d c = Inr c'" by (simp add: add_'_def)
  have "index_inv c" "current_size c = live_size c" "cache_map c k = None"
    using inv absent False by (simp_all add: cache_inv_def)
  from add_insert_inv[OF this r'] False
  show ?thesis unfolding cache_inv_def by blast
qed

lemma add_inv:
  assumes inv: "cache_inv c" and r: "add k v d c = Inr c'"
  shows "cache_inv c' \<and> max_size c' = max_size c \<and> calc_size c' = calc_size c \<and> size_calc c' = size_calc c \<and>
         memory c' = memory c \<and>
         evict c' = evict c \<and> strong c' = strong c"
proof (cases "strong c")
  case True
  with r have "add_' k v d c = Inr c'" by (simp add: add_def)
  from add__inv[OF inv _ this] True show ?thesis by simp
next
  case False
  from r False obtain b c1 where rd: "remove_dirty k d c = Inr (b, c1)"
    by (auto simp: add_def split: sum.splits)
  note rdi = remove_dirty_inv[OF inv rd]
  show ?thesis
  proof (cases b)
    case True
    with r False rd have "add_' k v d c1 = Inr c'" by (simp add: add_def)
    from add__inv[OF _ _ this] rdi True show ?thesis by simp
  next
    case False
    with r \<open>\<not> strong c\<close> rd have "c' = c1" by (simp add: add_def)
    with rdi False show ?thesis by blast
  qed
qed

lemma value_merge_fields [simp]:
  "memory (value_merge vmerge p q c) = (memory c)(p := vmerge (memory c p) (memory c q))"
  "size_calc (value_merge vmerge p q c) = size_calc c"
  "evict (value_merge vmerge p q c) = evict c"
  "max_size (value_merge vmerge p q c) = max_size c"
  "current_size (value_merge vmerge p q c) = current_size c"
  "next_node (value_merge vmerge p q c) = next_node c"
  "strong (value_merge vmerge p q c) = strong c"
  "cache_map (value_merge vmerge p q c) = cache_map c"
  "eviction_list (value_merge vmerge p q c) = eviction_list c"
  by (simp_all add: value_merge_def)

lemma merge_key_present:
  assumes "\<not> strong c" "cache_map c k = Some it" "deref c it = Some e"
  shows "merge_key vmerge vtrim k v d c =
     (let merged = vmerge (memory c (get1 e)) (memory c v);
          over = (0 < max_size c \<and> max_size c < size_calc c merged);
          stored = (if over then vtrim merged (max_size c) else merged);
          new_size = (if over then max_size c else size_calc c merged)
      in fit_' (c\<lparr>memory := (memory c)(get1 e := stored),
                   eviction_list := splice (evict c) it e (eviction_list c),
                   current_size := current_size c + (new_size - calc_size c (get1 e))\<rparr>))"
proof -
  let ?c0 = "c\<lparr>memory := (memory c)(get1 e := vmerge (memory c (get1 e)) (memory c v))\<rparr>"
  have "deref ?c0 it = Some e" using assms(3) by (simp add: deref_def)
  from touch__eq[OF this]
  have t: "touch_' it ?c0
           = Inr (?c0\<lparr>eviction_list := splice (evict c) it e (eviction_list c)\<rparr>)"
    by simp
  have delta: "(if a < b then x + (b - a) else if b < a then x - (a - b) else x) = x + (b - a)"
    for a b x :: size_type
    by (cases "a = b") auto
  show ?thesis
    unfolding merge_key_def using assms
    apply (simp add: t Let_def calc_size_def value_trim_def value_merge_def del: fit_'.simps)
    apply (intro conjI impI arg_cong[where f = "fit_'"])
    apply (auto simp: not_less)
    done
qed

lemma sum_list_sole_owner:
  fixes sc :: "'o \<Rightarrow> size_type" and xs :: "(iterator \<times> ('k, 'v) entry_type) list"
  assumes d: "distinct (map fst xs)" and m: "map_of xs it = Some e"
    and so: "\<forall>n \<in> set xs. get1 (snd n) = get1 e \<longrightarrow> fst n = it"
  shows "sum_list (map (\<lambda>n. sc ((mem(get1 e := x)) (get1 (snd n)))) xs)
         = sum_list (map (\<lambda>n. sc (mem (get1 (snd n)))) xs) - sc (mem (get1 e)) + sc x"
proof -
  let ?f = "\<lambda>n. sc (mem (get1 (snd n)))"
  let ?g = "\<lambda>n. sc ((mem(get1 e := x)) (get1 (snd n)))"
  let ?rest = "filter (\<lambda>n. fst n \<noteq> it) xs"
  have "\<forall>n \<in> set ?rest. ?g n = ?f n"
  proof
    fix n assume "n \<in> set ?rest"
    then have "n \<in> set xs" "fst n \<noteq> it" by simp_all
    with so have "get1 (snd n) \<noteq> get1 e" by blast
    then show "?g n = ?f n" by simp
  qed
  then have meq: "map ?g ?rest = map ?f ?rest" by (simp only: map_eq_conv)
  have Sf: "sum_list (map ?f xs) = sc (mem (get1 e)) + sum_list (map ?f ?rest)"
    using sum_splice[OF d m, of ?f] by simp
  have "sum_list (map ?g xs) = ?g (it, e) + sum_list (map ?g ?rest)"
    by (rule sum_splice[OF d m])
  also have "?g (it, e) = sc x" by simp
  finally have Sg: "sum_list (map ?g xs) = sc x + sum_list (map ?f ?rest)"
    by (simp only: meq)
  show ?thesis unfolding Sg Sf by simp
qed

lemma merge_mid:
  fixes c :: "('k, 'v, 'o) cache" and stored :: 'o
  assumes inv: "cache_inv c" and e: "deref c it = Some e"
    and so: "sole_owner c it (get1 e)"
  defines "mid \<equiv> c\<lparr>memory := (memory c)(get1 e := stored),
                     eviction_list := splice (evict c) it e (eviction_list c),
                     current_size := current_size c + (size_calc c stored - calc_size c (get1 e))\<rparr>"
  shows "index_inv mid \<and> current_size mid = live_size mid"
proof -
  have iinv: "index_inv c" using inv by (simp add: cache_inv_def)
  have m: "map_of (eviction_list c) it = Some e" using e by (simp add: deref_def)
  have d: "distinct (map fst (eviction_list c))" using iinv by (simp add: index_inv_def idx_okD1)
  have "index_inv mid"
    using idx_ok_splice[OF iinv[unfolded index_inv_def] m, of "evict c"]
    by (simp add: index_inv_def mid_def)
  moreover have "live_size mid
      = sum_list (map (\<lambda>n. size_calc c (((memory c)(get1 e := stored)) (get1 (snd n))))
          (eviction_list c))"
    using sum_splice_eq[OF d m,
        of "\<lambda>n. size_calc c (((memory c)(get1 e := stored)) (get1 (snd n)))" "evict c"]
    by (simp add: live_size_def mid_def calc_size_def)
  then have "live_size mid = live_size c - calc_size c (get1 e) + size_calc c stored"
    using sum_list_sole_owner[OF d m so[unfolded sole_owner_def], of "size_calc c" "memory c" stored]
    by (simp add: live_size_def calc_size_def)
  then have "current_size mid = live_size mid"
    using inv by (simp add: mid_def cache_inv_def)
  ultimately show ?thesis by simp
qed

lemma merge_key_inv:
  assumes inv: "cache_inv c" and acc: "merge_accounted vmerge vtrim (Merge k v d) c"
    and r: "merge_key vmerge vtrim k v d c = Inr c'"
  shows "cache_inv c' \<and> (c' = c \<or> (max_size c' = 0 \<or> current_size c' \<le> max_size c')) \<and>
         max_size c' = max_size c \<and> size_calc c' = size_calc c \<and>
         evict c' = evict c \<and> strong c' = strong c"
proof (cases "strong c \<or> cache_map c k = None")
  case True
  have "add_' k v d c = Inr c'"
  proof (cases "strong c")
    case True
    with r show ?thesis by (simp add: merge_key_def)
  next
    case False
    with True have "cache_map c k = None" by simp
    with r False show ?thesis by (simp add: merge_key_def)
  qed
  from add__inv[OF inv _ this] True show ?thesis by blast
next
  case False
  then obtain it where it: "cache_map c k = Some it" and ns: "\<not> strong c" by auto
  have iinv: "index_inv c" using inv by (simp add: cache_inv_def)
  from deref_index[OF iinv it] obtain e where e: "deref c it = Some e" "get0 e = k" by blast
  define merged where "merged = vmerge (memory c (get1 e)) (memory c v)"
  define over where "over \<longleftrightarrow> 0 < max_size c \<and> max_size c < size_calc c merged"
  define stored where "stored = (if over then vtrim merged (max_size c) else merged)"
  define new_size where "new_size = (if over then max_size c else size_calc c merged)"
  define mid where "mid = c\<lparr>memory := (memory c)(get1 e := stored),
                   eviction_list := splice (evict c) it e (eviction_list c),
                   current_size := current_size c + (new_size - calc_size c (get1 e))\<rparr>"
  have "merge_key vmerge vtrim k v d c = fit_' mid"
    by (simp only: merge_key_present[OF ns it e(1)] Let_def mid_def stored_def new_size_def
        over_def merged_def)
  with r have f: "fit_' mid = Inr c'" by simp
  from acc ns it e(1) have so: "sole_owner c it (get1 e)"
    and tb: "trims_to_budget vmerge vtrim (get1 e) v c"
    by (simp_all add: merge_accounted_def)
  have sz: "size_calc c stored = new_size"
    using tb by (auto simp: trims_to_budget_def Let_def stored_def new_size_def over_def merged_def)
  from merge_mid[OF inv e(1) so, of stored] have im: "index_inv mid" "current_size mid = live_size mid"
    by (simp_all add: mid_def sz)
  have "index_inv c'" by (rule fit_index_inv[OF f im(1)])
  moreover have "current_size c' = live_size c'" using fit_pending[OF f] im(2) by simp
  moreover note fit_capacity[OF f]
  moreover have "max_size c' = max_size c" "size_calc c' = size_calc c" "evict c' = evict c"
    "strong c' = strong c"
    using fit_fields[OF f] by (simp_all add: mid_def)
  ultimately show ?thesis using ns by (simp add: cache_inv_def)
qed

lemma resize_inv:
  assumes inv: "cache_inv c" and r: "resize new_max c = Inr c'"
  shows "cache_inv c' \<and> (max_size c' = 0 \<or> current_size c' \<le> max_size c') \<and>
         max_size c' = new_max \<and> calc_size c' = calc_size c \<and> size_calc c' = size_calc c \<and>
         memory c' = memory c \<and>
         evict c' = evict c \<and> strong c' = strong c"
proof -
  let ?c0 = "c\<lparr>max_size := new_max\<rparr>"
  have f: "fit_' ?c0 = Inr c'" using r by (simp add: resize_def)
  have "index_inv ?c0" "current_size ?c0 = live_size ?c0"
    using inv by (simp_all add: cache_inv_def index_inv_def live_size_def)
  with fit_index_inv[OF f] fit_pending[OF f] have "index_inv c'" "current_size c' = live_size c'"
    by simp_all
  moreover have "strong c' \<longrightarrow> eviction_list c' = []"
    using fit_prefix[OF f] fit_fields[OF f] inv by (auto simp: cache_inv_def)
  ultimately show ?thesis using fit_capacity[OF f] fit_fields[OF f] by (simp add: cache_inv_def)
qed

lemma clear_inv:
  "cache_inv (clear c) \<and> current_size (clear c) = 0 \<and> max_size (clear c) = max_size c \<and>
   calc_size (clear c) = calc_size c \<and> size_calc (clear c) = size_calc c \<and>
         memory (clear c) = memory c \<and> evict (clear c) = evict c \<and> strong (clear c) = strong c"
  by (simp add: clear_def clear_'_def cache_inv_def index_inv_def live_size_def idx_ok_empty)

lemma get_inv:
  assumes inv: "cache_inv c" and r: "get k t c = Inr (res, c')"
  shows "cache_inv c' \<and> current_size c' = current_size c \<and> max_size c' = max_size c \<and>
         calc_size c' = calc_size c \<and> size_calc c' = size_calc c \<and>
         memory c' = memory c \<and> evict c' = evict c \<and> strong c' = strong c \<and>
         cache_map c' = cache_map c \<and> deref c' = deref c \<and>
         res = map_option get1 (case cache_map c k of None \<Rightarrow> None | Some it \<Rightarrow> deref c it)"
proof (cases t)
  case True
  have iinv: "index_inv c" using inv by (simp add: cache_inv_def)
  from touch_inv[OF iinv, of k] obtain c1 where c1: "touch k c = Inr (cache_map c k, c1) \<and>
    index_inv c1 \<and> live_size c1 = live_size c \<and> deref c1 = deref c \<and>
    cache_map c1 = cache_map c \<and> current_size c1 = current_size c \<and>
    max_size c1 = max_size c \<and> calc_size c1 = calc_size c \<and> size_calc c1 = size_calc c \<and>
         memory c1 = memory c \<and> evict c1 = evict c \<and>
    strong c1 = strong c \<and> next_node c1 = next_node c \<and> (cache_map c k = None \<longrightarrow> c1 = c)" ..
  show ?thesis
  proof (cases "cache_map c k")
    case None
    with r True c1 inv show ?thesis by (simp add: get_def)
  next
    case (Some it)
    from deref_index[OF iinv Some] obtain e where e: "deref c it = Some e" by blast
    have "c' = c1" "res = Some (get1 e)" using r True c1 Some e by (simp_all add: get_def)
    moreover have "deref c1 it = Some e" using c1 e by simp
    then have "eviction_list c1 \<noteq> []" by (auto simp: deref_def)
    moreover have "eviction_list c \<noteq> []" using e by (auto simp: deref_def)
    ultimately show ?thesis using c1 inv Some e by (simp add: cache_inv_def)
  qed
next
  case False
  have iinv: "index_inv c" using inv by (simp add: cache_inv_def)
  show ?thesis
  proof (cases "cache_map c k")
    case None
    with r False inv show ?thesis by (simp add: get_def)
  next
    case (Some it)
    from deref_index[OF iinv Some] obtain e where e: "deref c it = Some e" by blast
    with r False inv Some show ?thesis by (simp add: get_def)
  qed
qed

lemma remove_key_inv:
  assumes inv: "cache_inv c" and r: "remove_key k c = Inr c'"
  shows "cache_inv c' \<and> cache_map c' k = None \<and> max_size c' = max_size c \<and>
         calc_size c' = calc_size c \<and> size_calc c' = size_calc c \<and>
         memory c' = memory c \<and> evict c' = evict c \<and> strong c' = strong c"
proof -
  from r obtain b where rd: "remove_dirty k False c = Inr (b, c')"
    by (auto simp: remove_key_def split: sum.splits)
  have "b" using rd by (auto simp: remove_dirty_def split: option.splits sum.splits)
  with remove_dirty_inv[OF inv rd] show ?thesis by simp
qed

lemma merge_cache_inv:
  assumes "cache_inv c" "merge_cache es c = Inr c'"
  shows "cache_inv c' \<and> max_size c' = max_size c \<and>
         calc_size c' = calc_size c \<and> size_calc c' = size_calc c \<and>
         memory c' = memory c \<and> evict c' = evict c \<and> strong c' = strong c"
  using assms
proof (induction es arbitrary: c)
  case Nil
  then show ?case by simp
next
  case (Cons element rest)
  obtain c1 where step: "add (get0 element) (get1 element) (get2 element) c = Inr c1"
    and rest: "merge_cache rest c1 = Inr c'"
    using Cons.prems(2) by (auto simp: add_def split: if_splits sum.splits)
  from add_inv[OF Cons.prems(1) step] Cons.IH[OF _ rest] show ?case by simp
qed

lemma within_capacity_alt: "within_capacity c = (max_size c = 0 \<or> current_size c \<le> max_size c)"
  by (auto simp: within_capacity_def word_gt_0)

lemma perform_inv:
  assumes inv: "cache_inv c" and acc: "merge_accounted vmerge vtrim x c"
    and r: "perform vmerge vtrim x c = Inr c'"
  shows "cache_inv c' \<and> size_calc c' = size_calc c \<and> evict c' = evict c \<and> strong c' = strong c"
proof (cases x)
  case (Add k v d)
  with r add_inv[OF inv, of k v d c'] show ?thesis by simp
next
  case (Merge k v d)
  with r acc merge_key_inv[OF inv, of vmerge vtrim k v d c'] show ?thesis by simp
next
  case (Merge_cache es)
  with r merge_cache_inv[OF inv, of es c'] show ?thesis by simp
next
  case (Resize n)
  with r resize_inv[OF inv, of n c'] show ?thesis by simp
next
  case Clear
  with r clear_inv[of c] show ?thesis by auto
next
  case (Get k t)
  with r obtain res where "get k t c = Inr (res, c')" by (auto split: sum.splits)
  from get_inv[OF inv this] show ?thesis by simp
next
  case (Remove k)
  with r remove_key_inv[OF inv, of k c'] show ?thesis by simp
qed

lemma run_inv:
  assumes "cache_inv c" "merges_accounted vmerge vtrim xs c" "run vmerge vtrim xs c = Inr c'"
  shows "cache_inv c' \<and> size_calc c' = size_calc c \<and> evict c' = evict c \<and> strong c' = strong c"
  using assms
proof (induction xs arbitrary: c)
  case Nil
  then show ?case by simp
next
  case (Cons x xs)
  from Cons.prems(3) obtain c1 where p: "perform vmerge vtrim x c = Inr c1"
    and rest: "run vmerge vtrim xs c1 = Inr c'"
    by (auto split: sum.splits)
  from Cons.prems(2) p have g: "merge_accounted vmerge vtrim x c"
    "merges_accounted vmerge vtrim xs c1"
    by simp_all
  note s = perform_inv[OF Cons.prems(1) g(1) p]
  from Cons.IH[OF _ g(2) rest] s show ?case by simp
qed

lemma new_cache_inv: "cache_inv (new_cache sc ev m s mem)"
  by (simp add: new_cache_def cache_inv_def index_inv_def live_size_def idx_ok_empty)

section \<open>Capacity\<close>

lemma touch_sizes:
  assumes "touch k c = Inr (r, c')"
  shows "current_size c' = current_size c \<and> max_size c' = max_size c \<and> strong c' = strong c \<and>
         (r = None \<longrightarrow> c' = c)"
  using assms
  by (auto simp: touch_def touch_'_def Let_def split: option.splits sum.splits)

lemma remove_dirty_sizes:
  assumes "remove_dirty k d c = Inr (b, c')"
  shows "max_size c' = max_size c \<and> strong c' = strong c \<and> (\<not> b \<longrightarrow> c' = c)"
  using assms
  by (auto simp: remove_dirty_def remove_'_def deref_def split: option.splits sum.splits if_splits)

lemma add_insert_capacity:
  assumes "add_insert k v d c = Inr c'"
  shows "within_capacity c'"
proof -
  from assms obtain c1 where f: "fit_' (c\<lparr>current_size := current_size c + calc_size c v\<rparr>) = Inr c1"
    and c': "c' = (snd (push_' (k, v, d) c1))\<lparr>cache_map := (cache_map (snd (push_' (k, v, d) c1)))(k \<mapsto> fst (push_' (k, v, d) c1))\<rparr>"
    by (auto simp: add_insert_def split: sum.splits prod.splits)
  from fit_capacity[OF f] show ?thesis
    by (simp add: c' push_'_def Let_def within_capacity_alt)
qed

lemma add__capacity:
  assumes "add_' k v d c = Inr c'"
  shows "(strong c \<and> c' = c) \<or> within_capacity c'"
proof (cases "strong c")
  case False
  with assms add_insert_capacity[of k v d c c'] show ?thesis by (simp add: add_'_def)
next
  case True
  with assms obtain had c1 where t: "touch k c = Inr (had, c1)"
    and r: "(if had = None then Inr c1 else add_insert k v d c1) = Inr c'"
    by (auto simp: add_'_def split: sum.splits)
  show ?thesis
  proof (cases had)
    case None
    with r touch_sizes[OF t] True show ?thesis by simp
  next
    case (Some it)
    with r add_insert_capacity[of k v d c1 c'] show ?thesis by simp
  qed
qed

lemma add_capacity:
  assumes "add k v d c = Inr c'"
  shows "c' = c \<or> within_capacity c'"
proof (cases "strong c")
  case True
  with assms add__capacity[of k v d c c'] show ?thesis by (auto simp: add_def)
next
  case False
  with assms obtain b c1 where rd: "remove_dirty k d c = Inr (b, c1)"
    and r: "(if b then add_' k v d c1 else Inr c1) = Inr c'"
    by (auto simp: add_def split: sum.splits)
  show ?thesis
  proof (cases b)
    case True
    with r have "add_' k v d c1 = Inr c'" by simp
    from add__capacity[OF this] remove_dirty_sizes[OF rd] False show ?thesis by simp
  next
    case False
    with r remove_dirty_sizes[OF rd] show ?thesis by simp
  qed
qed

lemma merge_cache_capacity:
  assumes "within_capacity c" "merge_cache es c = Inr c'"
  shows "within_capacity c'"
  using assms
proof (induction es arbitrary: c)
  case Nil
  then show ?case by simp
next
  case (Cons element rest)
  obtain c1 where step: "add (get0 element) (get1 element) (get2 element) c = Inr c1"
    and rest: "merge_cache rest c1 = Inr c'"
    using Cons.prems(2) by (auto simp: add_def split: if_splits sum.splits)
  from add_capacity[OF step] Cons.prems(1) have "within_capacity c1" by auto
  from Cons.IH[OF this rest] show ?case .
qed

lemma merge_key_capacity:
  assumes "merge_key vmerge vtrim k v d c = Inr c'"
  shows "c' = c \<or> within_capacity c'"
proof (cases "strong c \<or> cache_map c k = None")
  case True
  have "add_' k v d c = Inr c'"
  proof (cases "strong c")
    case True
    with assms show ?thesis by (simp add: merge_key_def)
  next
    case False
    with True have "cache_map c k = None" by simp
    with assms False show ?thesis by (simp add: merge_key_def)
  qed
  from add__capacity[OF this] show ?thesis by auto
next
  case False
  then obtain it where it: "cache_map c k = Some it" and ns: "\<not> strong c" by auto
  from assms it ns obtain e where e: "deref c it = Some e"
    by (cases "deref c it") (simp_all add: merge_key_def)
  from assms merge_key_present[OF ns it e, of vmerge vtrim v d]
  obtain mid where "fit_' mid = Inr c'" by (simp add: Let_def)
  from fit_capacity[OF this] show ?thesis by (simp add: within_capacity_alt)
qed

lemma get_sizes:
  assumes "get k t c = Inr (res, c')"
  shows "current_size c' = current_size c \<and> max_size c' = max_size c"
proof (cases t)
  case True
  with assms obtain r where "touch k c = Inr (r, c')"
    by (auto simp: get_def split: sum.splits option.splits)
  from touch_sizes[OF this] show ?thesis by simp
next
  case False
  with assms show ?thesis by (auto simp: get_def split: option.splits)
qed

lemma remove_key_capacity:
  assumes "within_capacity c" "remove_in_range (Remove k) c" "remove_key k c = Inr c'"
  shows "within_capacity c'"
proof (cases "cache_map c k")
  case None
  with assms show ?thesis by (simp add: remove_key_def remove_dirty_def)
next
  case (Some it)
  with assms(3) obtain e where e: "deref c it = Some e"
    by (cases "deref c it") (simp_all add: remove_key_def remove_dirty_def)
  have le: "calc_size c (get1 e) \<le> current_size c"
    using assms(2) Some e by (simp add: remove_in_range_def)
  have c': "current_size c' = current_size c - calc_size c (get1 e)" "max_size c' = max_size c"
    using assms(3) Some e
    by (auto simp: remove_key_def remove_dirty_def remove_'_def deref_def split: sum.splits)
  have "current_size c - calc_size c (get1 e) \<le> current_size c"
    using le by (simp add: word_sub_le)
  with assms(1) c' show ?thesis by (auto simp: within_capacity_def)
qed

lemma perform_capacity:
  assumes "within_capacity c" "remove_in_range x c" "perform vmerge vtrim x c = Inr c'"
  shows "within_capacity c'"
proof (cases x)
  case (Add k v d)
  with assms add_capacity[of k v d c c'] show ?thesis by auto
next
  case (Merge k v d)
  with assms merge_key_capacity[of vmerge vtrim k v d c c'] show ?thesis by auto
next
  case (Merge_cache es)
  with assms merge_cache_capacity[of c es c'] show ?thesis by simp
next
  case (Resize n)
  with assms(3) have "fit_' (c\<lparr>max_size := n\<rparr>) = Inr c'" by (simp add: resize_def)
  from fit_capacity[OF this] show ?thesis by (simp add: within_capacity_alt)
next
  case Clear
  with assms(3) show ?thesis by (auto simp: clear_def clear_'_def within_capacity_def)
next
  case (Get k t)
  with assms(3) obtain res where "get k t c = Inr (res, c')" by (auto split: sum.splits)
  from get_sizes[OF this] assms(1) show ?thesis by (simp add: within_capacity_def)
next
  case (Remove k)
  with assms remove_key_capacity[of c k c'] show ?thesis by simp
qed

lemma run_capacity:
  assumes "within_capacity c" "removes_in_range vmerge vtrim xs c" "run vmerge vtrim xs c = Inr c'"
  shows "within_capacity c'"
  using assms
proof (induction xs arbitrary: c)
  case Nil
  then show ?case by simp
next
  case (Cons x xs)
  from Cons.prems(3) obtain c1 where p: "perform vmerge vtrim x c = Inr c1"
    and rest: "run vmerge vtrim xs c1 = Inr c'"
    by (auto split: sum.splits)
  from Cons.prems(2) p have g: "remove_in_range x c" "removes_in_range vmerge vtrim xs c1"
    by simp_all
  from Cons.IH[OF perform_capacity[OF Cons.prems(1) g(1) p] g(2) rest] show ?case .
qed

section \<open>Results of \<^verbatim>\<open>get\<close> and \<^verbatim>\<open>add\<close>\<close>

lemma get_result:
  assumes inv: "index_inv c"
  shows "\<exists>c'. get k t c = Inr (map_option get1 (case cache_map c k of None \<Rightarrow> None | Some it \<Rightarrow> deref c it), c')"
proof (cases "cache_map c k")
  case None
  then show ?thesis by (cases t) (simp_all add: get_def touch_def)
next
  case (Some it)
  from deref_index[OF inv Some] obtain e where e: "deref c it = Some e" by blast
  show ?thesis
  proof (cases t)
    case False
    with Some e show ?thesis by (simp add: get_def)
  next
    case True
    from touch_inv[OF inv, of k] obtain c1 where c1: "touch k c = Inr (cache_map c k, c1) \<and>
      index_inv c1 \<and> live_size c1 = live_size c \<and> deref c1 = deref c \<and>
      cache_map c1 = cache_map c \<and> current_size c1 = current_size c \<and>
      max_size c1 = max_size c \<and> calc_size c1 = calc_size c \<and> size_calc c1 = size_calc c \<and>
         memory c1 = memory c \<and> evict c1 = evict c \<and>
      strong c1 = strong c \<and> next_node c1 = next_node c \<and> (cache_map c k = None \<longrightarrow> c1 = c)" ..
    with True Some e show ?thesis by (simp add: get_def)
  qed
qed

lemma add_insert_returns:
  assumes "current_size c = live_size c" "max_size c = 0 \<or> calc_size c v \<le> max_size c"
  shows "\<exists>c'. add_insert k v d c = Inr c'"
proof -
  let ?c0 = "c\<lparr>current_size := current_size c + calc_size c v\<rparr>"
  have "current_size ?c0 = live_size ?c0 + calc_size c v"
    using assms(1) by (simp add: live_size_def)
  moreover have "max_size ?c0 = 0 \<or> calc_size c v \<le> max_size ?c0" using assms(2) by simp
  ultimately obtain c1 where "fit_' ?c0 = Inr c1" using fit_returns by blast
  then show ?thesis by (simp add: add_insert_def split: prod.splits)
qed

section \<open>The filled cache\<close>

lemma size_less_iff:
  assumes "a < 2 ^ 64" "b < 2 ^ 64"
  shows "((of_nat a :: size_type) < of_nat b) = (a < b)"
  using assms by (simp add: of_nat_word_less_iff take_bit_nat_eq_self)

lemma size_pos_iff:
  assumes "a < 2 ^ 64"
  shows "(0 < (of_nat a :: size_type)) = (0 < a)"
  using size_less_iff[of 0 a] assms by simp

lemma map_of_fill_nodes:
  "map_of (map (fill_node val) ks) k = (if k \<in> set ks then Some (k, val k, False) else None)"
  by (induction ks) (auto simp: fill_node_def)

lemma filter_fill_nodes:
  "filter (\<lambda>n. fst n \<noteq> j) (map (fill_node val) ks) = map (fill_node val) (filter (\<lambda>k. k \<noteq> j) ks)"
  by (induction ks) (auto simp: fill_node_def)

lemma deref_filled:
  "deref (filled ev n N val) k = (if k < n then Some (k, val k, False) else None)"
  by (cases ev) (simp_all add: deref_def filled_def map_of_fill_nodes)

lemma fit_filled:
  assumes "n \<le> N" "N < 2 ^ 64"
  shows "fit_' ((filled ev n N val)\<lparr>current_size := of_nat n\<rparr>) = Inr (filled ev n N val)"
proof -
  have "\<not> ((of_nat N :: size_type) < of_nat n)"
    using assms size_less_iff[of N n] by simp
  then have "\<not> over_budget ((filled ev n N val)\<lparr>current_size := of_nat n\<rparr>)"
    by (simp add: over_budget_def filled_def)
  from fit_within_budget[OF this] show ?thesis by (simp add: filled_def)
qed

lemma add_filled:
  assumes "Suc n \<le> N" "N < 2 ^ 64"
  shows "add n (val n) False (filled ev n N val) = Inr (filled ev (Suc n) N val)"
proof -
  let ?c = "filled ev n N val"
  let ?start = "?c\<lparr>current_size := current_size ?c + calc_size ?c (val n)\<rparr>"
  have "\<not> ((of_nat N :: size_type) < of_nat (Suc n))"
    using assms size_less_iff[of N "Suc n"] by simp
  then have h: "\<not> ((of_nat N :: size_type) < of_nat n + 1)" by (simp add: add.commute)
  have suc: "(of_nat (Suc n) :: size_type) = of_nat n + 1" by simp
  have nb: "\<not> over_budget ?start"
    using h by (simp add: over_budget_def filled_def unit_size_def calc_size_def)
  have m: "(\<lambda>k. if k < n then Some k else None)(n \<mapsto> n) = (\<lambda>k. if k < Suc n then Some k else None)"
    by (auto simp: fun_eq_iff)
  have f: "fit_' ?start = Inr ?start" by (rule fit_within_budget[OF nb])
  have "add_insert n (val n) False ?c
          = (let (it, c2) = push_' (n, val n, False) ?start
             in Inr (c2\<lparr>cache_map := (cache_map c2)(n \<mapsto> it)\<rparr>))"
    by (simp only: add_insert_def f sum.case)
  also have "\<dots> = Inr (filled ev (Suc n) N val)"
    by (cases ev) (simp_all add: push_'_def Let_def filled_def unit_size_def m
        fill_node_def suc calc_size_def del: of_nat_Suc)
  finally have ai: "add_insert n (val n) False ?c = Inr (filled ev (Suc n) N val)" .
  have rd: "remove_dirty n False ?c = Inr (True, ?c)"
    by (simp add: remove_dirty_def filled_def)
  have ns: "\<not> strong ?c" by (simp add: filled_def)
  show ?thesis using ai rd ns by (simp add: add_def add_'_def)
qed

lemma fill_filled:
  assumes "n \<le> N" "N < 2 ^ 64"
  shows "fill val n (new_cache unit_size ev (of_nat N) False id) = Inr (filled ev n N val)"
  using assms
proof (induction n)
  case 0
  then show ?case by (cases ev) (simp_all add: filled_def new_cache_def id_def)
next
  case (Suc n)
  then show ?case by (simp add: add_filled)
qed

lemma fill_inv:
  assumes "cache_inv c" "fill val n c = Inr c'"
  shows "cache_inv c'"
  using assms
proof (induction n arbitrary: c')
  case 0
  then show ?case by simp
next
  case (Suc n)
  from Suc.prems(2) obtain c1 where c1: "fill val n c = Inr c1" "add n (val n) False c1 = Inr c'"
    by (auto split: sum.splits)
  from add_inv[OF Suc.IH[OF Suc.prems(1) c1(1)] c1(2)] show ?case by simp
qed

lemma upt_filter_zero:
  "filter (\<lambda>k. 0 < k) [0..<Suc n] = [Suc 0..<Suc n]"
proof -
  have "[0..<Suc n] = 0 # [Suc 0..<Suc n]" by (simp add: upt_rec)
  moreover have "filter (\<lambda>k. 0 < k) [Suc 0..<Suc n] = [Suc 0..<Suc n]"
    by (auto simp: filter_id_conv)
  ultimately show ?thesis by (simp del: upt_Suc)
qed

lemma filter_fill_nodes_zero:
  "filter (\<lambda>n. 0 < fst n) (map (fill_node val) ks) = map (fill_node val) (filter (\<lambda>k. 0 < k) ks)"
  by (induction ks) (auto simp: fill_node_def)

lemma get_filled:
  assumes "0 < N"
  shows "get 0 True (filled ev N N val)
         = Inr (Some (val 0),
             (filled ev N N val)\<lparr>eviction_list :=
                (case ev of
                   LRU \<Rightarrow> map (fill_node val) (0 # rev [1..<N])
                 | MRU \<Rightarrow> map (fill_node val) ([1..<N] @ [0]))\<rparr>)"
proof -
  from assms obtain n where N: "N = Suc n" by (cases N) auto
  have d: "deref (filled ev N N val) 0 = Some (0, val 0, False)"
    using assms by (simp add: deref_filled)
  have m: "cache_map (filled ev N N val) 0 = Some 0" using assms by (simp add: filled_def)
  have fu: "filter (\<lambda>k. 0 < k) [0..<N] = [Suc 0..<N]"
    unfolding N by (rule upt_filter_zero)
  have fr: "filter (\<lambda>k. 0 < k) (rev [0..<N]) = rev [Suc 0..<N]"
    unfolding rev_filter[symmetric] fu ..
  have t: "touch_' 0 (filled ev N N val)
           = Inr ((filled ev N N val)\<lparr>eviction_list :=
                (case ev of
                   LRU \<Rightarrow> map (fill_node val) (0 # rev [1..<N])
                 | MRU \<Rightarrow> map (fill_node val) ([1..<N] @ [0]))\<rparr>)"
    unfolding touch__eq[OF d]
    by (cases ev)
      (simp_all add: splice_def filled_def filter_fill_nodes_zero fr fu fill_node_def)
  have d': "deref ((filled ev N N val)\<lparr>eviction_list :=
                (case ev of
                   LRU \<Rightarrow> map (fill_node val) (0 # rev [1..<N])
                 | MRU \<Rightarrow> map (fill_node val) ([1..<N] @ [0]))\<rparr>) 0 = Some (0, val 0, False)"
    by (cases ev) (simp_all add: deref_def map_of_fill_nodes del: list.map map_append)
  show ?thesis
    by (simp add: get_def touch_def m t d')
qed

lemma add_evicting_one:
  fixes c :: "('k, 'v, 'o) cache"
  assumes ns: "\<not> strong c" and su: "size_calc c = unit_size"
    and absent: "cache_map c key = None" and xs: "eviction_list c = xs @ [x]"
    and full: "current_size c = max_size c" and pos: "0 < max_size c"
    and nowrap: "max_size c < max_size c + 1"
  shows "add key v False c
         = Inr (c\<lparr>eviction_list :=
                    (case evict c of LRU \<Rightarrow> (next_node c, (key, v, False)) # xs
                                   | MRU \<Rightarrow> xs @ [(next_node c, (key, v, False))]),
                  next_node := Suc (next_node c),
                  cache_map := ((cache_map c)(get0 (snd x) := None))(key \<mapsto> next_node c)\<rparr>)"
proof -
  let ?start = "c\<lparr>current_size := current_size c + calc_size c v\<rparr>"
  have us: "calc_size c = unit_size"
    using su by (simp add: calc_size_def fun_eq_iff unit_size_def)
  have ob: "over_budget ?start"
    using pos nowrap full us by (simp add: over_budget_def unit_size_def)
  have ne: "eviction_list ?start \<noteq> []" using xs by simp
  have nb: "\<not> over_budget (evict_back ?start)"
    using full us by (simp add: over_budget_def unit_size_def)
  have f: "fit_' ?start = Inr (evict_back ?start)"
    using ob ne fit_within_budget[OF nb] by (simp add: fit_unfold[of ?start])
  have "add_insert key v False c
          = (let (it, c2) = push_' (key, v, False) (evict_back ?start)
             in Inr (c2\<lparr>cache_map := (cache_map c2)(key \<mapsto> it)\<rparr>))"
    by (simp only: add_insert_def f sum.case)
  also have "\<dots> = Inr (c\<lparr>eviction_list :=
                    (case evict c of LRU \<Rightarrow> (next_node c, (key, v, False)) # xs
                                   | MRU \<Rightarrow> xs @ [(next_node c, (key, v, False))]),
                  next_node := Suc (next_node c),
                  cache_map := ((cache_map c)(get0 (snd x) := None))(key \<mapsto> next_node c)\<rparr>)"
    using xs full us
    by (cases "evict c") (simp_all add: push_'_def Let_def evict_back_def unit_size_def)
  finally have ai: "add_insert key v False c = Inr (c\<lparr>eviction_list :=
                    (case evict c of LRU \<Rightarrow> (next_node c, (key, v, False)) # xs
                                   | MRU \<Rightarrow> xs @ [(next_node c, (key, v, False))]),
                  next_node := Suc (next_node c),
                  cache_map := ((cache_map c)(get0 (snd x) := None))(key \<mapsto> next_node c)\<rparr>)" .
  have rd: "remove_dirty key False c = Inr (True, c)"
    using absent by (simp add: remove_dirty_def)
  show ?thesis using ai rd ns by (simp add: add_def add_'_def)
qed

lemma then_get_result:
  assumes "cache_inv c"
  shows "then_get (Inr c) k
         = Inr (map_option get1 (case cache_map c k of None \<Rightarrow> None | Some it \<Rightarrow> deref c it))"
proof -
  have "index_inv c" using assms by (simp add: cache_inv_def)
  from get_result[OF this, of k True] show ?thesis by (auto simp: then_get_def)
qed

lemma filled_inv:
  assumes "n \<le> N" "N < 2 ^ 64"
  shows "cache_inv (filled ev n N val)"
  using fill_inv[OF new_cache_inv fill_filled[OF assms]] .

lemma then_get_filled:
  assumes "N < 2 ^ 64" "k < N"
  shows "then_get (fill val N (new_cache unit_size ev (of_nat N) False id)) k = Inr (Some (val k))"
proof -
  have cm: "cache_map (filled ev N N val) k = Some k" using assms(2) by (simp add: filled_def)
  have d: "deref (filled ev N N val) k = Some (k, val k, False)"
    using assms(2) by (simp add: deref_filled)
  show ?thesis
    unfolding fill_filled[OF order_refl assms(1)]
      then_get_result[OF filled_inv[OF order_refl assms(1)]]
    by (simp add: cm d)
qed

lemma lru_final:
  assumes "2 \<le> N" "N + 1 < 2 ^ 64"
  shows "recency_run LRU N val
         = Inr ((filled LRU N N val)\<lparr>eviction_list := map (fill_node val) (N # 0 # rev [2..<N]),
                  next_node := Suc N,
                  cache_map := ((\<lambda>k. if k < N then Some k else None)(1 := None))(N \<mapsto> N)\<rparr>)"
proof -
  let ?t = "(filled LRU N N val)\<lparr>eviction_list := map (fill_node val) (0 # rev [1..<N])\<rparr>"
  have N: "N < 2 ^ 64" "0 < N" using assms by simp_all
  have up: "[Suc 0..<N] = Suc 0 # [2..<N]"
    using assms(1) by (simp add: upt_rec[of "Suc 0"] numeral_2_eq_2)
  have xs: "eviction_list ?t = map (fill_node val) (0 # rev [2..<N]) @ [fill_node val 1]"
    by (simp add: up)
  have nowrap: "max_size ?t < max_size ?t + 1"
  proof -
    have "(of_nat N :: size_type) < of_nat (Suc N)"
      using size_less_iff[of N "Suc N"] assms(2) by simp
    then show ?thesis by (simp add: filled_def add.commute)
  qed
  have pos: "0 < max_size ?t" using size_pos_iff[OF N(1)] N(2) by (simp add: filled_def)
  have a: "add N (val N) False ?t
        = Inr ((filled LRU N N val)\<lparr>eviction_list := map (fill_node val) (N # 0 # rev [2..<N]),
                  next_node := Suc N,
                  cache_map := ((\<lambda>k. if k < N then Some k else None)(1 := None))(N \<mapsto> N)\<rparr>)"
    by (subst add_evicting_one[OF _ _ _ xs _ pos nowrap])
      (simp_all add: filled_def fill_node_def)
  show ?thesis
    unfolding recency_run_def fill_filled[OF order_refl N(1)]
    using get_filled[OF N(2), of LRU val] a by simp
qed

lemma mru_final:
  assumes "0 < N" "N + 1 < 2 ^ 64"
  shows "recency_run MRU N val
         = Inr ((filled MRU N N val)\<lparr>eviction_list := map (fill_node val) ([1..<N] @ [N]),
                  next_node := Suc N,
                  cache_map := ((\<lambda>k. if k < N then Some k else None)(0 := None))(N \<mapsto> N)\<rparr>)"
proof -
  let ?t = "(filled MRU N N val)\<lparr>eviction_list := map (fill_node val) ([1..<N] @ [0])\<rparr>"
  have N: "N < 2 ^ 64" "0 < N" using assms by simp_all
  have xs: "eviction_list ?t = map (fill_node val) [1..<N] @ [fill_node val 0]"
    by simp
  have nowrap: "max_size ?t < max_size ?t + 1"
  proof -
    have "(of_nat N :: size_type) < of_nat (Suc N)"
      using size_less_iff[of N "Suc N"] assms(2) by simp
    then show ?thesis by (simp add: filled_def add.commute)
  qed
  have pos: "0 < max_size ?t" using size_pos_iff[OF N(1)] N(2) by (simp add: filled_def)
  have a: "add N (val N) False ?t
        = Inr ((filled MRU N N val)\<lparr>eviction_list := map (fill_node val) ([1..<N] @ [N]),
                  next_node := Suc N,
                  cache_map := ((\<lambda>k. if k < N then Some k else None)(0 := None))(N \<mapsto> N)\<rparr>)"
    by (subst add_evicting_one[OF _ _ _ xs _ pos nowrap])
      (simp_all add: filled_def fill_node_def)
  show ?thesis
    unfolding recency_run_def fill_filled[OF order_refl N(1)]
    using get_filled[OF N(2), of MRU val] a by simp
qed

lemma recency_run_inv:
  assumes "recency_run ev N val = Inr c"
  shows "cache_inv c"
proof -
  from assms obtain c1 r c2 where
    s: "fill val N (new_cache unit_size ev (of_nat N) False id) = Inr c1"
       "get 0 True c1 = Inr (r, c2)" "add N (val N) False c2 = Inr c"
    by (auto simp: recency_run_def split: sum.splits)
  from fill_inv[OF new_cache_inv s(1)] have "cache_inv c1" .
  from get_inv[OF this s(2)] have "cache_inv c2" by simp
  from add_inv[OF this s(3)] show ?thesis by simp
qed

section \<open>Sizes without wrap-around, oversized values, strong mode\<close>

lemma live_size_exact: "live_size c = of_nat (exact_total c)"
proof -
  have "sum_list (map f xs) = (of_nat (sum_list (map (\<lambda>n. unat (f n)) xs)) :: size_type)"
    for f :: "iterator \<times> ('a, 'b) entry_type \<Rightarrow> size_type" and xs
    by (induction xs) simp_all
  then show ?thesis by (simp add: live_size_def exact_total_def)
qed

lemma current_size_exact:
  assumes "current_size c = live_size c" "exact_total c < 2 ^ 64"
  shows "unat (current_size c) = exact_total c"
  using assms by (simp add: live_size_exact unat_of_nat take_bit_nat_eq_self)

lemma entry_le_exact_total:
  assumes "deref c it = Some e"
  shows "unat (calc_size c (get1 e)) \<le> exact_total c"
proof -
  from assms have "(it, e) \<in> set (eviction_list c)" by (simp add: deref_def map_of_SomeD)
  then have "unat (calc_size c (get1 (snd (it, e))))
               \<in> set (map (\<lambda>n. unat (calc_size c (get1 (snd n)))) (eviction_list c))"
    by (simp only: set_map) (rule imageI)
  from member_le_sum_list[OF this] show ?thesis by (simp add: exact_total_def)
qed

lemma remove_in_range_without_wrap:
  assumes "current_size c = live_size c" "exact_total c < 2 ^ 64"
  shows "remove_in_range x c"
proof (cases x)
  case (Remove k)
  show ?thesis
  proof (cases "cache_map c k")
    case None
    with Remove show ?thesis by (simp add: remove_in_range_def)
  next
    case (Some it)
    show ?thesis
    proof (cases "deref c it")
      case None
      with Remove Some show ?thesis by (simp add: remove_in_range_def)
    next
      case (Some e)
      from entry_le_exact_total[OF Some] current_size_exact[OF assms]
      have "calc_size c (get1 e) \<le> current_size c" by (simp add: word_le_nat_alt)
      with Remove \<open>cache_map c k = Some it\<close> Some show ?thesis
        by (simp add: remove_in_range_def)
    qed
  qed
qed (simp_all add: remove_in_range_def)

lemma exact_total_evict_back:
  assumes "eviction_list d \<noteq> []"
  shows "exact_total d
         = exact_total (evict_back d) + unat (calc_size d (get1 (snd (last (eviction_list d)))))"
proof -
  have "sum_list (map (\<lambda>n. unat (calc_size d (get1 (snd n))))
           (butlast (eviction_list d) @ [last (eviction_list d)]))
        = sum_list (map (\<lambda>n. unat (calc_size d (get1 (snd n)))) (butlast (eviction_list d)))
          + unat (calc_size d (get1 (snd (last (eviction_list d)))))"
    by (simp only: map_append sum_list_append) simp
  then show ?thesis using assms by (simp add: exact_total_def)
qed

lemma fit_oversized:
  assumes "current_size c = live_size c + p" "0 < max_size c" "max_size c < p"
    and "exact_total c + unat p < 2 ^ 64"
  shows "fit_' c = Inl Empty_list_back"
  using assms
proof (induction c rule: fit_'.induct)
  case (1 c)
  have "unat (current_size c) = exact_total c + unat p"
    using "1.prems"(1,4) by (simp add: live_size_exact unat_word_ariths unat_of_nat take_bit_nat_eq_self)
  then have "p \<le> current_size c" by (simp add: word_le_nat_alt)
  with "1.prems"(2,3) have ob: "over_budget c" by (simp add: over_budget_def)
  show ?case
  proof (cases "eviction_list c = []")
    case True
    with ob show ?thesis by (simp add: fit_unfold[of c])
  next
    case False
    have a: "current_size (evict_back c) = live_size (evict_back c) + p"
      using "1.prems"(1) by (simp add: live_size_evict_back[OF False])
    have b: "exact_total (evict_back c) + unat p < 2 ^ 64"
      using "1.prems"(4) exact_total_evict_back[OF False] by simp
    have "fit_' (evict_back c) = Inl Empty_list_back"
      using "1.IH"[OF _ False refl refl] ob a b "1.prems"(2,3)
      by (simp add: over_budget_def evict_back_def)
    with ob False show ?thesis by (simp add: fit_unfold[of c])
  qed
qed

lemma add_oversized:
  fixes c :: "('k, 'v, 'o) cache"
  assumes inv: "cache_inv c" and ns: "\<not> strong c"
    and pos: "0 < max_size c" and big: "max_size c < calc_size c v"
    and nowrap: "exact_total c + unat (calc_size c v) < 2 ^ 64"
  shows "add k v d c = Inl Empty_list_back \<or> add k v d c = Inr c"
proof -
  have iinv: "index_inv c" using inv by (simp add: cache_inv_def)
  from remove_dirty_returns[OF iinv, of k d] obtain b c1
    where rd: "remove_dirty k d c = Inr (b, c1)" by blast
  note rdi = remove_dirty_inv[OF inv rd]
  show ?thesis
  proof (cases b)
    case False
    with rd rdi ns show ?thesis by (simp add: add_def)
  next
    case True
    have le: "exact_total c1 \<le> exact_total c"
    proof (cases "cache_map c k")
      case None
      with rd show ?thesis by (simp add: remove_dirty_def)
    next
      case (Some it)
      with rd True obtain e where "deref c it = Some e"
        and c1: "eviction_list c1 = filter (\<lambda>n. fst n \<noteq> it) (eviction_list c)"
          "calc_size c1 = calc_size c"
        by (cases "deref c it")
          (auto simp: remove_dirty_def remove_'_def deref_def split: if_splits)
      have "sum_list (map f (filter P xs)) \<le> sum_list (map f xs)"
        for f :: "iterator \<times> ('k, 'v) entry_type \<Rightarrow> nat" and P xs
        by (induction xs) simp_all
      then show ?thesis by (simp add: exact_total_def c1)
    qed
    let ?start = "c1\<lparr>current_size := current_size c1 + calc_size c1 v\<rparr>"
    have "fit_' ?start = Inl Empty_list_back"
    proof (rule fit_oversized[where p = "calc_size c v"])
      show "current_size ?start = live_size ?start + calc_size c v"
        using rdi by (simp add: cache_inv_def live_size_def)
      show "0 < max_size ?start" "max_size ?start < calc_size c v"
        using rdi pos big by simp_all
      show "exact_total ?start + unat (calc_size c v) < 2 ^ 64"
        using le nowrap by (simp add: exact_total_def)
    qed
    then have "add_insert k v d c1 = Inl Empty_list_back" by (simp add: add_insert_def)
    with rd True ns rdi show ?thesis by (simp add: add_def add_'_def)
  qed
qed

lemma strong_add_absent:
  assumes "strong c" "cache_map c k = None"
  shows "add k v d c = Inr c"
  using assms by (simp add: add_def add_'_def touch_def)

lemma strong_merges_accounted:
  assumes "cache_inv c" "strong c"
  shows "merges_accounted vmerge vtrim xs c"
  using assms
proof (induction xs arbitrary: c)
  case Nil
  then show ?case by simp
next
  case (Cons x xs)
  have a: "merge_accounted vmerge vtrim x c"
    using Cons.prems(2) by (cases x) (simp_all add: merge_accounted_def)
  show ?case
  proof (cases "perform vmerge vtrim x c")
    case (Inl f)
    with a show ?thesis by simp
  next
    case (Inr c1)
    from perform_inv[OF Cons.prems(1) a Inr] Cons.prems(2)
    have "cache_inv c1" "strong c1" by simp_all
    from Cons.IH[OF this] a Inr show ?thesis by simp
  qed
qed

lemma strong_cache_stays_empty:
  fixes c :: "('k, 'v, 'o) cache"
  assumes "run vmerge vtrim xs (new_cache sc ev m True mem) = Inr c"
  shows "eviction_list c = [] \<and> cache_map c = Map.empty \<and> current_size c = 0"
proof -
  have s0: "strong (new_cache sc ev m True mem :: ('k, 'v, 'o) cache)"
    by (simp add: new_cache_def)
  from run_inv[OF new_cache_inv strong_merges_accounted[OF new_cache_inv s0] assms]
  have inv: "cache_inv c" and s: "strong c" by (simp_all add: new_cache_def)
  then have e: "eviction_list c = []" by (simp add: cache_inv_def)
  moreover have "cache_map c = Map.empty"
    using cache_inv_strong_empty[OF inv s] by (simp add: fun_eq_iff)
  moreover have "current_size c = 0" using inv e by (simp add: cache_inv_def live_size_def)
  ultimately show ?thesis by simp
qed

section \<open>Strong association: \<^verbatim>\<open>add\<close> of an absent key\<close>

lemmas eval_defs =
  add_def add_'_def add_insert_def remove_dirty_def remove_'_def remove_key_def touch_def
  touch_'_def push_'_def get_def deref_def new_cache_def clear_def clear_'_def resize_def
  merge_key_def value_merge_def value_trim_def calc_size_def exists_key_def fit_'.simps
  Let_def unit_size_def string_size_def counter_size_def counter_merge_def counter_trim_def
  string_merge_def string_trim_def strings_at_def

text \<open>
  C1.  In strong-association mode \<^verbatim>\<open>add\<close> is claimed to insert the pair unconditionally,
  so that the key is present afterwards and \<^verbatim>\<open>get\<close> returns the new value.  The code
  returns from \<^verbatim>\<open>add_\<close> as soon as \<^verbatim>\<open>touch\<close> does not find the key: on the cache
  \<^verbatim>\<open>lru_cache<int, int>(1024, true)\<close>, \<^verbatim>\<open>add(0, 15)\<close> leaves the cache as it was
  constructed and \<^verbatim>\<open>get(0)\<close> then reports not-found.  This is so for every key that
  is absent (\<open>strong_add_absent\<close>), hence a strong cache stays empty whatever is done to
  it (\<open>strong_cache_stays_empty\<close>).
\<close>

theorem strong_add_of_absent_key_stores_nothing:
  "add (0::int) (15::int) False (new_cache unit_size LRU 1024 True id)
     = Inr (new_cache unit_size LRU 1024 True id)
   \<and> get (0::int) True (new_cache unit_size LRU 1024 True id)
     = Inr (None :: int option, new_cache unit_size LRU 1024 True id)
   \<and> \<not> exists_key (0::int) (new_cache unit_size LRU 1024 True id :: (int, int, int) cache)"
  by (simp add: add_def add_'_def touch_def get_def exists_key_def new_cache_def)

section \<open>The eviction loop on an empty list\<close>

text \<open>
  C2.  An oversized value is claimed to be admitted and evicted at once, \<^verbatim>\<open>add\<close>
  completing normally with the key absent.  In the code \<^verbatim>\<open>fit_\<close> runs before the new
  entry is pushed: on \<^verbatim>\<open>lru_cache<int, std::string>(9)\<close> with the length as size,
  \<^verbatim>\<open>add(0, "0123456789")\<close> raises \<^verbatim>\<open>current_size\<close> to 10 and enters the loop with an
  empty list, where \<^verbatim>\<open>back()\<close> is undefined.  Every \<^verbatim>\<open>add\<close> of an oversized value that is
  not rejected as a dirty write ends so, as long as the sizes do not wrap around
  (\<open>add_oversized\<close>).
\<close>

theorem add_oversized_value_reaches_empty_back:
  "add (0::int) ''0123456789'' False (new_cache string_size LRU 9 False id)
     = Inl Empty_list_back"
  by (simp add: add_def add_'_def add_insert_def remove_dirty_def new_cache_def
      string_size_def calc_size_def fit_'.simps)

text \<open>
  C3.  The loop is claimed to stop when the eviction sequence is empty and never to take
  an entry from an empty sequence.  Its only test is the budget: over budget with an
  empty list it evaluates \<^verbatim>\<open>eviction_list.back()\<close>, under LRU and MRU alike.  The state is
  the one \<^verbatim>\<open>add_\<close> hands to \<^verbatim>\<open>fit_\<close> in the run above.
\<close>

theorem fit_takes_back_of_empty_list:
  "fit_' ((new_cache string_size LRU 9 False id :: (int, string, string) cache)
            \<lparr>current_size := 10\<rparr>)
     = Inl Empty_list_back
   \<and> fit_' ((new_cache string_size MRU 9 False id :: (int, string, string) cache)
            \<lparr>current_size := 10\<rparr>)
     = Inl Empty_list_back"
  by (simp add: new_cache_def fit_'.simps)

section \<open>The capacity bound\<close>

text \<open>
  C4, as stated: after every public mutating operation on a bounded cache,
  \<^verbatim>\<open>current_size <= max_size\<close>.  This fails when an addition to \<^verbatim>\<open>current_size\<close> has
  wrapped around: in a cache of counters bounded by 10, \<^verbatim>\<open>add(1, 5)\<close> and then
  \<^verbatim>\<open>add(2, v)\<close> with a value of size \<open>2^64 - 3\<close> leave \<^verbatim>\<open>current_size = 2\<close>, nothing is
  evicted, and \<^verbatim>\<open>remove(1)\<close> subtracts 5 from 2: the cache is left with
  \<^verbatim>\<open>current_size = 2^64 - 3\<close>, above its bound.
\<close>

theorem remove_after_wrapped_add_exceeds_capacity:
  "map_sum id max_size
     (run counter_merge counter_trim
        [Add (1::int) 5 False, Add 2 (- 3) False, Remove 1]
        (new_cache counter_size LRU 10 False id)) = Inr 10
   \<and> map_sum id current_size
     (run counter_merge counter_trim
        [Add (1::int) 5 False, Add 2 (- 3) False, Remove 1]
        (new_cache counter_size LRU 10 False id)) = Inr 18446744073709551613
   \<and> map_sum id within_capacity
     (run counter_merge counter_trim
        [Add (1::int) 5 False, Add 2 (- 3) False, Remove 1]
        (new_cache counter_size LRU 10 False id)) = Inr False"
  by (simp add: eval_defs within_capacity_def)

text \<open>
  C4, amended: on every run of public operations from a new cache, in which each
  \<^verbatim>\<open>remove(key)\<close> finds an entry no larger than \<^verbatim>\<open>current_size\<close> (its subtraction does not
  wrap), the cache returned by the last operation has \<^verbatim>\<open>current_size <= max_size\<close> when
  \<^verbatim>\<open>max_size > 0\<close>.  The operations are \<^verbatim>\<open>add\<close>, both \<^verbatim>\<open>merge\<close>s, \<^verbatim>\<open>resize\<close>,
  \<^verbatim>\<open>clear\<close>, \<^verbatim>\<open>remove\<close> and \<^verbatim>\<open>get\<close>; nothing is asked of the size functor, of the
  value type or of the memory the values point into.  The condition on \<^verbatim>\<open>remove\<close> holds
  whenever \<^verbatim>\<open>current_size\<close> is the sum of the sizes of the live values and that sum is
  less than \<open>2^64\<close> (\<open>remove_in_range_without_wrap\<close>).
\<close>

theorem capacity_after_operations:
  fixes c :: "('k, 'v, 'o) cache"
  assumes "run vmerge vtrim xs (new_cache sc ev m strong_assoc mem) = Inr c"
    and "removes_in_range vmerge vtrim xs (new_cache sc ev m strong_assoc mem)"
    and "0 < max_size c"
  shows "current_size c \<le> max_size c"
proof -
  have "within_capacity (new_cache sc ev m strong_assoc mem :: ('k, 'v, 'o) cache)"
    by (simp add: within_capacity_def new_cache_def)
  from run_capacity[OF this assms(2,1)] assms(3) show ?thesis
    by (simp add: within_capacity_def)
qed

theorem capacity_after_operations_witness:
  "\<exists>c. run string_merge string_trim
          [Add (0::int) 0 False, Add 1 1 False, Remove 1,
           Add 2 2 False, Merge 2 3 False, Resize 5]
          (new_cache string_size LRU 19 False
             (strings_at [''0123456789'', ''abcdefghij'', ''xyz'', ''0123456789abcdefghij'']))
        = Inr c
       \<and> removes_in_range string_merge string_trim
          [Add (0::int) 0 False, Add 1 1 False, Remove 1,
           Add 2 2 False, Merge 2 3 False, Resize 5]
          (new_cache string_size LRU 19 False
             (strings_at [''0123456789'', ''abcdefghij'', ''xyz'', ''0123456789abcdefghij'']))
       \<and> 0 < max_size c \<and> current_size c \<le> max_size c"
proof -
  let ?xs = "[Add (0::int) (0::nat) False, Add 1 1 False, Remove 1,
           Add 2 2 False, Merge 2 3 False, Resize 5]"
  let ?c0 = "new_cache string_size LRU 19 False
             (strings_at [''0123456789'', ''abcdefghij'', ''xyz'', ''0123456789abcdefghij''])
             :: (int, nat, string) cache"
  have r: "run string_merge string_trim ?xs ?c0 = Inr (projr (run string_merge string_trim ?xs ?c0))"
    by (simp add: eval_defs)
  have g: "removes_in_range string_merge string_trim ?xs ?c0"
    by (simp add: eval_defs remove_in_range_def)
  have m: "0 < max_size (projr (run string_merge string_trim ?xs ?c0))"
    by (simp add: eval_defs)
  from capacity_after_operations[OF r g m] r g m show ?thesis by blast
qed

section \<open>Size accounting\<close>


text \<open>
  A trim that keeps the contract of the spec leaves exactly \<^verbatim>\<open>max_size\<close> units whenever
  \<^verbatim>\<open>merge\<close> calls it.
\<close>

lemma trim_exact_trims_to_budget:
  "trim_exact (size_calc c) vtrim \<Longrightarrow> trims_to_budget vmerge vtrim old_value val c"
  by (simp add: trim_exact_def trims_to_budget_def Let_def)

text \<open>
  C6, as stated: after every public operation \<^verbatim>\<open>current_size\<close> is the sum of the size
  functor over the live values.  \<^verbatim>\<open>merge(key, value)\<close> changes an object in place and
  accounts for the entry of \<open>key\<close> only.  A pointer that was added under two keys is
  held by two entries: in an unbounded cache of pointers to strings, after
  \<^verbatim>\<open>add(0, p)\<close> and \<^verbatim>\<open>add(1, p)\<close> with \<open>p\<close> pointing to \<open>"ab"\<close>, \<^verbatim>\<open>merge(0, q)\<close> with \<open>q\<close>
  pointing to \<open>"abc"\<close> makes the object \<open>"ababc"\<close>; \<^verbatim>\<open>current_size\<close> goes from 4 to 7,
  and the two live values have 5 units each.
\<close>

theorem merge_through_shared_value_is_miscounted:
  "map_sum id current_size
     (run string_merge string_trim
        [Add (0::int) 0 False, Add 1 0 False, Merge 0 1 False]
        (new_cache string_size LRU 0 False (strings_at [''ab'', ''abc'']))) = Inr 7
   \<and> map_sum id (\<lambda>c. map (\<lambda>n. calc_size c (get1 (snd n))) (eviction_list c))
     (run string_merge string_trim
        [Add (0::int) 0 False, Add 1 0 False, Merge 0 1 False]
        (new_cache string_size LRU 0 False (strings_at [''ab'', ''abc'']))) = Inr [5, 5]
   \<and> map_sum id live_size
     (run string_merge string_trim
        [Add (0::int) 0 False, Add 1 0 False, Merge 0 1 False]
        (new_cache string_size LRU 0 False (strings_at [''ab'', ''abc'']))) = Inr 10"
  by (simp add: eval_defs live_size_def)

text \<open>
  The accounting also relies on the trim: \<^verbatim>\<open>merge\<close> takes \<^verbatim>\<open>max_size\<close> for the size of a
  trimmed value.  With strings that count two units for each character, in a cache of
  capacity 5 that holds \<open>"ab"\<close>, merging \<open>"cd"\<close> into it gives 8 units, the trim leaves
  \<open>"ab"\<close>, 4 units, and \<^verbatim>\<open>current_size\<close> is 5.
\<close>

lemma merge_with_inexact_trim_is_miscounted:
  "map_sum id current_size
     (run string_merge halving_trim [Add (0::int) 0 False, Merge 0 1 False]
        (new_cache double_size LRU 5 False (strings_at [''ab'', ''cd'']))) = Inr 5
   \<and> map_sum id live_size
     (run string_merge halving_trim [Add (0::int) 0 False, Merge 0 1 False]
        (new_cache double_size LRU 5 False (strings_at [''ab'', ''cd'']))) = Inr 4"
  by (simp add: eval_defs live_size_def double_size_def halving_trim_def)

text \<open>
  C6, amended: let every \<^verbatim>\<open>merge(key, value)\<close> of a run that finds its key (in a cache
  that is not in strong-association mode) merge into an object that no other entry
  holds, and let the trim, when \<^verbatim>\<open>merge\<close> calls it, leave a content of exactly
  \<^verbatim>\<open>max_size\<close> units, as the spec requires of the value type (\<open>merges_accounted\<close>).  Then
  after every public operation of the run, from a new cache, \<^verbatim>\<open>current_size\<close> is the sum
  of the size functor over the values in the eviction list, and the index holds exactly
  the keys of these entries.  This is for every size functor, every memory, both
  strategies and both association modes; the sum is taken in \<^verbatim>\<open>size_type\<close>, as
  \<^verbatim>\<open>current_size\<close> is, and it is the sum of the sizes as natural numbers whenever that is
  below \<open>2^64\<close> (\<open>current_size_exact\<close>).  Runs without such a \<^verbatim>\<open>merge\<close> meet the condition,
  and so do all runs of a cache in strong-association mode (\<open>strong_merges_accounted\<close>).
\<close>

theorem current_size_is_sum_of_live_sizes:
  fixes c :: "('k, 'v, 'o) cache"
  assumes "run vmerge vtrim xs (new_cache sc ev m strong_assoc mem) = Inr c"
    and "merges_accounted vmerge vtrim xs (new_cache sc ev m strong_assoc mem)"
  shows "current_size c = sum_list (map (\<lambda>n. calc_size c (get1 (snd n))) (eviction_list c))
         \<and> index_inv c"
  using run_inv[OF new_cache_inv assms(2,1)] by (simp add: cache_inv_def live_size_def)

theorem current_size_is_sum_of_live_sizes_witness:
  "\<exists>c. run string_merge string_trim
          [Add (0::int) 0 False, Merge 0 1 True, Add 1 2 False, Add 2 2 False,
           Get 0 True, Add 3 3 True, Remove 1]
          (new_cache string_size MRU 19 False
             (strings_at [''0123456789'', ''abcdefghijkl'', ''xy'', ''z''])) = Inr c
        \<and> merges_accounted string_merge string_trim
          [Add (0::int) 0 False, Merge 0 1 True, Add 1 2 False, Add 2 2 False,
           Get 0 True, Add 3 3 True, Remove 1]
          (new_cache string_size MRU 19 False
             (strings_at [''0123456789'', ''abcdefghijkl'', ''xy'', ''z'']))
        \<and> current_size c
            = sum_list (map (\<lambda>n. calc_size c (get1 (snd n))) (eviction_list c))
        \<and> index_inv c"
proof -
  let ?xs = "[Add (0::int) (0::nat) False, Merge 0 1 True, Add 1 2 False, Add 2 2 False,
           Get 0 True, Add 3 3 True, Remove 1]"
  let ?c0 = "new_cache string_size MRU 19 False
             (strings_at [''0123456789'', ''abcdefghijkl'', ''xy'', ''z''])
             :: (int, nat, string) cache"
  have r: "run string_merge string_trim ?xs ?c0 = Inr (projr (run string_merge string_trim ?xs ?c0))"
    by (simp add: eval_defs)
  have g: "merges_accounted string_merge string_trim ?xs ?c0"
    by (simp add: eval_defs merge_accounted_def sole_owner_def trims_to_budget_def)
  from current_size_is_sum_of_live_sizes[OF r g] r g show ?thesis by blast
qed

section \<open>Dirty writes\<close>

lemma dirty_test_cache_reached:
  "add 0 15 False (new_cache unit_size LRU 0 False id) = Inr dirty_test_cache"
  by (simp add: eval_defs dirty_test_cache_def id_def)

lemma dirty_test_cache_inv: "cache_inv dirty_test_cache"
  using add_inv[OF new_cache_inv dirty_test_cache_reached] by simp

lemma small_string_cache_reached:
  "add 0 ''abc'' False (new_cache string_size LRU 9 False id) = Inr small_string_cache"
  by (simp add: eval_defs small_string_cache_def id_def)

lemma small_string_cache_inv: "cache_inv small_string_cache"
  using add_inv[OF new_cache_inv small_string_cache_reached] by simp

text \<open>
  The invariant \<open>cache_inv\<close> holds of every cache that a run of public operations from
  a new cache returns, if the run accounts for its merges.
\<close>

lemma reached_cache_inv:
  fixes c :: "('k, 'v, 'o) cache"
  assumes "run vmerge vtrim xs (new_cache sc ev m strong_assoc mem) = Inr c"
    and "merges_accounted vmerge vtrim xs (new_cache sc ev m strong_assoc mem)"
  shows "cache_inv c"
  using run_inv[OF new_cache_inv assms(2,1)] by simp

text \<open>
  C5, as stated: when a cache that is not in strong-association mode holds a clean
  entry for \<open>k\<close>, a dirty \<^verbatim>\<open>add\<close> is rejected and a following clean \<^verbatim>\<open>add(k, v3)\<close>
  overwrites, after which \<^verbatim>\<open>get(k)\<close> returns \<open>v3\<close>.  The second half fails for a value
  \<open>v3\<close> larger than \<^verbatim>\<open>max_size\<close>: the cache \<^verbatim>\<open>lru_cache<int, std::string>(9)\<close> holds
  \<open>"abc"\<close> under key 0 after \<^verbatim>\<open>add(0, "abc")\<close>; then \<^verbatim>\<open>add(0, "0123456789", false)\<close> removes
  the old entry, raises \<^verbatim>\<open>current_size\<close> to 10 and runs \<^verbatim>\<open>fit_\<close> on the empty list,
  where \<^verbatim>\<open>back()\<close> is undefined, so nothing is returned that \<^verbatim>\<open>get\<close> could be asked.
\<close>

theorem clean_overwrite_with_oversized_value_reaches_empty_back:
  "add 0 ''abc'' False (new_cache string_size LRU 9 False id) = Inr small_string_cache
   \<and> cache_inv small_string_cache \<and> \<not> strong small_string_cache
   \<and> cache_map small_string_cache 0 = Some 0
   \<and> deref small_string_cache 0 = Some (0, ''abc'', False)
   \<and> add 0 ''xy'' True small_string_cache = Inr small_string_cache
   \<and> add 0 ''0123456789'' False small_string_cache = Inl Empty_list_back"
proof -
  have "\<not> strong small_string_cache" "cache_map small_string_cache 0 = Some 0"
    "deref small_string_cache 0 = Some (0, ''abc'', False)"
    "add 0 ''xy'' True small_string_cache = Inr small_string_cache"
    "add 0 ''0123456789'' False small_string_cache = Inl Empty_list_back"
    by (simp_all add: eval_defs small_string_cache_def)
  with small_string_cache_reached small_string_cache_inv show ?thesis by simp
qed

text \<open>
  C5, amended: let a cache that is not in strong-association mode hold the clean entry
  \<open>(k, v_old)\<close>, with its index and its size accounting in order (\<open>cache_inv\<close>, which
  holds after every run that C6 covers), and let \<open>v3\<close> be no larger than \<^verbatim>\<open>max_size\<close>
  if the cache is bounded.  Then \<^verbatim>\<open>add(k, v_new, true)\<close> returns the cache it was given,
  unchanged in every field: the new value is dropped, \<^verbatim>\<open>current_size\<close>, the eviction
  order and the memory are as before, and \<^verbatim>\<open>get(k)\<close> returns \<open>v_old\<close>.  A following
  \<^verbatim>\<open>add(k, v3, false)\<close> returns, and \<^verbatim>\<open>get(k)\<close> then returns \<open>v3\<close>.
\<close>

theorem dirty_write_rejected:
  fixes c :: "('k, 'v, 'o) cache"
  assumes inv: "cache_inv c" and ns: "\<not> strong c"
    and it: "cache_map c k = Some it" and e: "deref c it = Some (k, v_old, False)"
    and fits: "max_size c = 0 \<or> calc_size c v3 \<le> max_size c"
  shows "add k v_new True c = Inr c
       \<and> (\<exists>c1. get k do_touch c = Inr (Some v_old, c1))
       \<and> (\<exists>c' c''. add k v3 False c = Inr c' \<and> get k do_touch c' = Inr (Some v3, c''))"
proof (intro conjI)
  have iinv: "index_inv c" using inv by (simp add: cache_inv_def)
  show "add k v_new True c = Inr c"
    using ns it e by (simp add: add_def remove_dirty_def)
  show "\<exists>c1. get k do_touch c = Inr (Some v_old, c1)"
    using get_result[OF iinv, of k do_touch] it e by simp
  from remove_dirty_returns[OF iinv, of k False] obtain b c1
    where rd: "remove_dirty k False c = Inr (b, c1)" by blast
  have b: "b" using rd by (auto simp: remove_dirty_def split: option.splits sum.splits)
  note rdi = remove_dirty_inv[OF inv rd]
  have step: "add k v3 False c = add_insert k v3 False c1"
    using ns rd b rdi by (simp add: add_def add_'_def)
  have c1: "index_inv c1" "current_size c1 = live_size c1" "cache_map c1 k = None"
    using rdi b by (simp_all add: cache_inv_def)
  have "max_size c1 = 0 \<or> calc_size c1 v3 \<le> max_size c1" using fits rdi by simp
  from add_insert_returns[OF c1(2) this, of k False] obtain c'
    where r: "add_insert k v3 False c1 = Inr c'" by blast
  note ai = add_insert_inv[OF c1 r]
  from get_result[of c' k do_touch] ai obtain c''
    where "get k do_touch c' = Inr (Some v3, c'')" by auto
  with r step show "\<exists>c' c''. add k v3 False c = Inr c' \<and> get k do_touch c' = Inr (Some v3, c'')"
    by auto
qed

theorem dirty_write_rejected_witness:
  "cache_inv dirty_test_cache \<and> \<not> strong dirty_test_cache
   \<and> cache_map dirty_test_cache 0 = Some 0
   \<and> deref dirty_test_cache 0 = Some (0, 15, False)
   \<and> (max_size dirty_test_cache = 0 \<or> calc_size dirty_test_cache 14 \<le> max_size dirty_test_cache)
   \<and> add 0 16 True dirty_test_cache = Inr dirty_test_cache
   \<and> (\<exists>c1. get 0 True dirty_test_cache = Inr (Some 15, c1))
   \<and> (\<exists>c' c''. add 0 14 False dirty_test_cache = Inr c'
                \<and> get 0 True c' = Inr (Some 14, c''))"
proof -
  have h: "\<not> strong dirty_test_cache" "cache_map dirty_test_cache 0 = Some 0"
    "deref dirty_test_cache 0 = Some (0, 15, False)"
    "max_size dirty_test_cache = 0 \<or> calc_size dirty_test_cache 14 \<le> max_size dirty_test_cache"
    by (simp_all add: dirty_test_cache_def deref_def)
  from dirty_write_rejected[OF dirty_test_cache_inv h, of 16 True] h
    dirty_test_cache_inv
  show ?thesis by blast
qed

section \<open>\<^verbatim>\<open>merge\<close> of a key that is present\<close>

lemma pointer_test_cache_reached:
  "run string_merge string_trim [Add 0 0 False, Add 1 1 False, Add 2 2 False]
     (new_cache string_size LRU 5 False (strings_at [''ab'', ''c'', ''de'', ''wxyz'']))
   = Inr pointer_test_cache"
  by (simp add: eval_defs pointer_test_cache_def numeral_2_eq_2[symmetric])

lemma pointer_test_cache_inv: "cache_inv pointer_test_cache"
  by (rule reached_cache_inv[OF pointer_test_cache_reached])
    (simp add: eval_defs merge_accounted_def)

lemma set_splice:
  assumes "distinct (map fst xs)" "map_of xs it = Some e"
  shows "set (splice ev it e xs) = set xs"
proof -
  from assms(2) have mem: "(it, e) \<in> set xs" by (rule map_of_SomeD)
  have only: "n = (it, e)" if "n \<in> set xs" "fst n = it" for n
    using eq_key_imp_eq_value[OF assms(1) mem, of "snd n"] that by (metis prod.collapse)
  have "set ((it, e) # filter (\<lambda>n. fst n \<noteq> it) xs) = set xs"
  proof (intro equalityI subsetI)
    fix n assume "n \<in> set ((it, e) # filter (\<lambda>n. fst n \<noteq> it) xs)"
    then show "n \<in> set xs" using mem by auto
  next
    fix n assume n: "n \<in> set xs"
    show "n \<in> set ((it, e) # filter (\<lambda>n. fst n \<noteq> it) xs)"
    proof (cases "fst n = it")
      case True
      then show ?thesis using only[OF n] by simp
    next
      case False
      then show ?thesis using n by simp
    qed
  qed
  then show ?thesis by (cases ev) (simp_all add: splice_def)
qed



text \<open>
  C10, as stated: \<^verbatim>\<open>merge(k, v, dirty)\<close> on a present key changes nothing but the value
  of the entry, the size accounting and the position of the entry.  The call ends with
  \<^verbatim>\<open>fit_\<close>, which evicts from the back of the list, and under MRU the entry just merged
  is at the back: in an MRU cache of capacity 3 holding \<open>"ab"\<close> under key 0 and \<open>"x"\<close>
  under key 1, \<^verbatim>\<open>merge(0, q)\<close> with \<open>q\<close> pointing to \<open>"c"\<close> makes the value \<open>"abc"\<close>,
  \<^verbatim>\<open>current_size\<close> 4, and evicts key 0.
\<close>

theorem merge_under_mru_evicts_merged_entry:
  "then_get (run string_merge string_trim
       [Add (0::int) 0 False, Add 1 1 False]
       (new_cache string_size MRU 3 False (strings_at [''ab'', ''x'', ''c'']))) 0
     = Inr (Some 0)
   \<and> then_get (run string_merge string_trim
       [Add (0::int) 0 False, Add 1 1 False, Merge 0 2 False]
       (new_cache string_size MRU 3 False (strings_at [''ab'', ''x'', ''c'']))) 0
     = Inr None
   \<and> then_get (run string_merge string_trim
       [Add (0::int) 0 False, Add 1 1 False, Merge 0 2 False]
       (new_cache string_size MRU 3 False (strings_at [''ab'', ''x'', ''c'']))) 1
     = Inr (Some 1)"
  by (simp add: then_get_def eval_defs)

text \<open>
  C10, amended: let a cache that is not in strong-association mode hold key \<open>k\<close> in node
  \<open>it\<close> with entry \<open>e\<close>.  The result of \<^verbatim>\<open>merge(k, v, dirty)\<close> does not depend on
  \<open>dirty\<close>, and no node is written to: every node of the cache it returns is a node of
  the cache before, with the key, the pointer and the dirty flag it had.  What changes
  is the content of the object that the entry of \<open>k\<close> points to (for every entry that
  holds this pointer), \<^verbatim>\<open>current_size\<close>, and the list: the node of \<open>k\<close> goes to the front
  (LRU) or to the back (MRU), the others keep their order, and then \<^verbatim>\<open>fit_\<close> evicts
  \<open>m\<close> nodes from the back, each while the cache was over budget, and erases their
  keys from the index; the cache returned is not over budget, and its index holds
  exactly the keys of the remaining nodes.  Under MRU the first node evicted is that of
  \<open>k\<close>.  \<^verbatim>\<open>max_size\<close>, the mode, the size functor and the strategy are unchanged.
\<close>

theorem merge_keeps_key_and_dirty_flag:
  fixes c :: "('k, 'v, 'o) cache"
    and vmerge :: "'o \<Rightarrow> 'o \<Rightarrow> 'o" and vtrim :: "'o \<Rightarrow> size_type \<Rightarrow> 'o"
    and v :: 'v and e :: "('k, 'v) entry_type" and it :: iterator
  assumes iinv: "index_inv c" and ns: "\<not> strong c"
    and it: "cache_map c k = Some it" and e: "deref c it = Some e"
  defines "old_value \<equiv> get1 e"
  defines "merged \<equiv> vmerge (memory c old_value) (memory c v)"
  defines "over \<equiv> 0 < max_size c \<and> max_size c < size_calc c merged"
  defines "stored \<equiv> if over then vtrim merged (max_size c) else merged"
  defines "new_size \<equiv> if over then max_size c else size_calc c merged"
  defines "others \<equiv> filter (\<lambda>n. fst n \<noteq> it) (eviction_list c)"
  defines "mid \<equiv> c\<lparr>memory := (memory c)(old_value := stored),
                     eviction_list :=
                       (case evict c of
                          LRU \<Rightarrow> (it, e) # others
                        | MRU \<Rightarrow> others @ [(it, e)]),
                     current_size := current_size c + (new_size - calc_size c old_value)\<rparr>"
  shows "merge_key vmerge vtrim k v d c = merge_key vmerge vtrim k v d' c
       \<and> get0 e = k
       \<and> (\<forall>c'. merge_key vmerge vtrim k v d c = Inr c' \<longrightarrow>
            (\<exists>m. c' = (evict_back ^^ m) mid
                 \<and> (\<forall>i<m. over_budget ((evict_back ^^ i) mid)) \<and> \<not> over_budget c'
                 \<and> eviction_list c'
                     = take (length (eviction_list mid) - m) (eviction_list mid))
          \<and> set (eviction_list c') \<subseteq> set (eviction_list c)
          \<and> index_inv c'
          \<and> memory c' = (memory c)(old_value := stored)
          \<and> max_size c' = max_size c \<and> strong c' = strong c
          \<and> size_calc c' = size_calc c \<and> evict c' = evict c
          \<and> next_node c' = next_node c)"
proof (intro conjI allI impI)
  show "merge_key vmerge vtrim k v d c = merge_key vmerge vtrim k v d' c"
    by (simp only: merge_key_present[OF ns it e])
  show "get0 e = k" using deref_index[OF iinv it] e by auto
next
  fix c' assume r: "merge_key vmerge vtrim k v d c = Inr c'"
  have "merge_key vmerge vtrim k v d c = fit_' mid"
    by (simp only: merge_key_present[OF ns it e] Let_def mid_def stored_def new_size_def
        over_def merged_def old_value_def others_def splice_def)
  with r have f: "fit_' mid = Inr c'" by simp
  have m: "map_of (eviction_list c) it = Some e" using e by (simp add: deref_def)
  have d: "distinct (map fst (eviction_list c))" using iinv by (simp add: index_inv_def idx_okD1)
  have lm: "eviction_list mid = splice (evict c) it e (eviction_list c)"
    by (cases "evict c") (simp_all add: mid_def others_def splice_def)
  have im: "index_inv mid"
    using idx_ok_splice[OF iinv[unfolded index_inv_def] m, of "evict c"]
    by (simp add: index_inv_def lm) (simp add: mid_def)
  from fit_steps[OF f] obtain m where m: "c' = (evict_back ^^ m) mid"
    "\<forall>i<m. over_budget ((evict_back ^^ i) mid)" "\<not> over_budget c'" by blast
  have l: "eviction_list c' = take (length (eviction_list mid) - m) (eviction_list mid)"
    unfolding m(1) by (rule evict_back_funpow_list)
  from m l
  show "\<exists>m. c' = (evict_back ^^ m) mid
           \<and> (\<forall>i<m. over_budget ((evict_back ^^ i) mid)) \<and> \<not> over_budget c'
           \<and> eviction_list c' = take (length (eviction_list mid) - m) (eviction_list mid)"
    by blast
  have "set (eviction_list c') \<subseteq> set (eviction_list mid)"
    unfolding l by (rule set_take_subset)
  then show "set (eviction_list c') \<subseteq> set (eviction_list c)"
    unfolding lm set_splice[OF d \<open>map_of (eviction_list c) it = Some e\<close>] .
  show "index_inv c'" by (rule fit_index_inv[OF f im])
  show "memory c' = (memory c)(old_value := stored)"
    unfolding m(1) by (simp add: mid_def)
  show "max_size c' = max_size c" "strong c' = strong c" "size_calc c' = size_calc c"
    "evict c' = evict c" "next_node c' = next_node c"
    unfolding m(1) by (simp_all add: mid_def)
qed

theorem merge_keeps_key_and_dirty_flag_witness:
  "index_inv pointer_test_cache \<and> \<not> strong pointer_test_cache
   \<and> cache_map pointer_test_cache 1 = Some 1
   \<and> deref pointer_test_cache 1 = Some (1, 1, False)
   \<and> merge_key string_merge string_trim 1 2 True pointer_test_cache
       = merge_key string_merge string_trim 1 2 False pointer_test_cache
   \<and> (\<exists>c'. merge_key string_merge string_trim 1 2 True pointer_test_cache = Inr c'
         \<and> c' = evict_back
                  (pointer_test_cache
                     \<lparr>memory := (memory pointer_test_cache)(1 := ''cde''),
                      eviction_list :=
                        [(1, (1, 1, False)), (2, (2, 2, False)), (0, (0, 0, False))],
                      current_size := 7\<rparr>)
         \<and> eviction_list c' = [(1, (1, 1, False)), (2, (2, 2, False))]
         \<and> set (eviction_list c') \<subseteq> set (eviction_list pointer_test_cache)
         \<and> index_inv c' \<and> cache_map c' 0 = None
         \<and> memory c' = (memory pointer_test_cache)(1 := ''cde''))"
proof -
  let ?c = pointer_test_cache
  have h: "\<not> strong ?c" "cache_map ?c 1 = Some 1" "deref ?c 1 = Some (1, 1, False)"
    by (simp_all add: pointer_test_cache_def deref_def)
  have i: "index_inv ?c" using pointer_test_cache_inv by (simp add: cache_inv_def)
  note t = merge_keeps_key_and_dirty_flag[OF i h, where vmerge = string_merge
      and vtrim = string_trim and v = 2 and d = True and d' = False]
  have ev: "merge_key string_merge string_trim 1 2 True ?c
      = Inr (evict_back
                  (?c\<lparr>memory := (memory ?c)(1 := ''cde''),
                      eviction_list :=
                        [(1, (1, 1, False)), (2, (2, 2, False)), (0, (0, 0, False))],
                      current_size := 7\<rparr>))"
    by (simp add: pointer_test_cache_def eval_defs evict_back_def)
  define c' where "c' = evict_back
                  (?c\<lparr>memory := (memory ?c)(1 := ''cde''),
                      eviction_list :=
                        [(1, (1, 1, False)), (2, (2, 2, False)), (0, (0, 0, False))],
                      current_size := 7\<rparr>)"
  have r: "merge_key string_merge string_trim 1 2 True ?c = Inr c'"
    using ev by (simp only: c'_def)
  from t r have fr: "set (eviction_list c') \<subseteq> set (eviction_list ?c)" "index_inv c'"
    by blast+
  have l: "eviction_list c' = [(1, (1, 1, False)), (2, (2, 2, False))]"
    "cache_map c' 0 = None" "memory c' = (memory ?c)(1 := ''cde'')"
    unfolding c'_def by (simp_all add: pointer_test_cache_def evict_back_def)
  from conjunct1[OF t] h i r fr l c'_def show ?thesis by blast
qed

section \<open>Recency: which key the next insertion evicts\<close>

text \<open>
  C7, as stated: for an LRU cache of capacity \<open>N\<close>, after the keys \<open>0, ..., N - 1\<close>,
  a touching \<^verbatim>\<open>get(0)\<close> and the insertion of key \<open>N\<close>, key 0 is still retrievable.  For
  \<open>N = 1\<close> key 0 is the only entry, and the insertion of key 1 evicts it.
\<close>

theorem lru_of_capacity_one_evicts_touched_key:
  "then_get (recency_run LRU 1 test_val) 0 = Inr None
   \<and> then_get (recency_run LRU 1 test_val) 1 = Inr (Some 16)"
  by (simp add: recency_run_def then_get_def eval_defs test_val_def)

text \<open>
  C7, amended: for an LRU cache of capacity \<open>N\<close> with \<open>2 \<le> N\<close> (and \<open>N + 1\<close> a
  \<^verbatim>\<open>size_t\<close>), unit-size entries: after inserting the keys \<open>0, ..., N - 1\<close> every one of
  them is retrievable (nothing has been evicted); after \<^verbatim>\<open>get(0)\<close> with touch and the
  insertion of key \<open>N\<close>, \<^verbatim>\<open>get(0)\<close> returns the value of key 0, \<^verbatim>\<open>get(1)\<close> reports
  not-found, and key \<open>N\<close> is retrievable.
\<close>

theorem lru_keeps_touched_key:
  assumes "2 \<le> N" "N + 1 < 2 ^ 64"
  shows "(\<forall>k<N. then_get (fill val N (new_cache unit_size LRU (of_nat N) False id)) k
                   = Inr (Some (val k)))
       \<and> then_get (recency_run LRU N val) 0 = Inr (Some (val 0))
       \<and> then_get (recency_run LRU N val) 1 = Inr None
       \<and> then_get (recency_run LRU N val) N = Inr (Some (val N))"
proof -
  have N: "N < 2 ^ 64" using assms by simp
  note fin = lru_final[OF assms, of val]
  note inv = recency_run_inv[OF fin]
  have "then_get (recency_run LRU N val) 0 = Inr (Some (val 0))"
    unfolding fin then_get_result[OF inv] using assms(1)
    by (simp add: deref_def map_of_fill_nodes del: list.map)
  moreover have "then_get (recency_run LRU N val) 1 = Inr None"
    unfolding fin then_get_result[OF inv] using assms(1) by simp
  moreover have "then_get (recency_run LRU N val) N = Inr (Some (val N))"
    unfolding fin then_get_result[OF inv]
    by (simp add: deref_def map_of_fill_nodes del: list.map)
  ultimately show ?thesis using then_get_filled[OF N, of _ val LRU] by simp
qed

theorem lru_keeps_touched_key_witness:
  "(2::nat) \<le> 1024 \<and> (1024::nat) + 1 < 2 ^ 64
   \<and> then_get (recency_run LRU 1024 test_val) 0 = Inr (Some 15)
   \<and> then_get (recency_run LRU 1024 test_val) 1 = Inr None
   \<and> then_get (recency_run LRU 1024 test_val) 1024 = Inr (Some 1039)"
  using lru_keeps_touched_key[of 1024 test_val] by (simp add: test_val_def)

text \<open>
  C8.  For an MRU cache of capacity \<open>N\<close> (\<open>N\<close> positive, since capacity 0 means
  unbounded, and \<open>N + 1\<close> a \<^verbatim>\<open>size_t\<close>), unit-size entries: after inserting the keys
  \<open>0, ..., N - 1\<close> every one of them is retrievable; \<^verbatim>\<open>get(0)\<close> with touch puts key 0 at
  the eviction end of the list; after the insertion of key \<open>N\<close>, \<^verbatim>\<open>get(0)\<close> reports
  not-found, while key 1 and key \<open>N\<close> are retrievable.
\<close>

theorem mru_evicts_touched_key:
  assumes "0 < N" "N + 1 < 2 ^ 64"
  shows "(\<forall>k<N. then_get (fill val N (new_cache unit_size MRU (of_nat N) False id)) k
                   = Inr (Some (val k)))
       \<and> (\<exists>c1 c2. fill val N (new_cache unit_size MRU (of_nat N) False id) = Inr c1
              \<and> get 0 True c1 = Inr (Some (val 0), c2)
              \<and> get0 (snd (last (eviction_list c2))) = 0)
       \<and> then_get (recency_run MRU N val) 0 = Inr None
       \<and> then_get (recency_run MRU N val) 1 = Inr (Some (val 1))
       \<and> then_get (recency_run MRU N val) N = Inr (Some (val N))"
proof -
  have N: "N < 2 ^ 64" using assms by simp
  note fin = mru_final[OF assms, of val]
  note inv = recency_run_inv[OF fin]
  have "then_get (recency_run MRU N val) 0 = Inr None"
    unfolding fin then_get_result[OF inv] using assms(1) by simp
  moreover have "then_get (recency_run MRU N val) 1 = Inr (Some (val 1))"
    unfolding fin then_get_result[OF inv] using assms(1)
    by (auto simp: deref_def map_of_fill_nodes simp del: list.map map_append)
  moreover have "then_get (recency_run MRU N val) N = Inr (Some (val N))"
    unfolding fin then_get_result[OF inv]
    by (simp add: deref_def map_of_fill_nodes del: list.map map_append)
  moreover have "\<exists>c1 c2. fill val N (new_cache unit_size MRU (of_nat N) False id) = Inr c1
              \<and> get 0 True c1 = Inr (Some (val 0), c2)
              \<and> get0 (snd (last (eviction_list c2))) = 0"
    using fill_filled[OF order_refl N, of val MRU] get_filled[OF assms(1), of MRU val]
    by (simp add: fill_node_def)
  ultimately show ?thesis using then_get_filled[OF N, of _ val MRU] by simp
qed

theorem mru_evicts_touched_key_witness:
  "(0::nat) < 1024 \<and> (1024::nat) + 1 < 2 ^ 64
   \<and> then_get (recency_run MRU 1024 test_val) 0 = Inr None
   \<and> then_get (recency_run MRU 1024 test_val) 1 = Inr (Some 16)
   \<and> then_get (recency_run MRU 1024 test_val) 1024 = Inr (Some 1039)"
  using mru_evicts_touched_key[of 1024 test_val] by (simp add: test_val_def)
end
